theory Spec2Isabelle
  imports Main "HOL-Library.Word" "HOL-Library.AList"
    "HOL-Library.Signed_Division"
begin

section \<open>Bytes, fixed-width values and the Reader (checkpoint.hpp, lines 27-68)\<close>

type_synonym byte = "8 word"
type_synonym u32 = "32 word"
type_synonym i32 = "32 word"
type_synonym u64 = "64 word"

text \<open>
  \<open>emit_val<T>\<close> copies the object representation of a value into the output vector and
  \<open>Reader::read<T>\<close> copies it back with \<open>memcpy\<close>. Every target of the emulator
  (RISC-V guest, x86-64 and WebAssembly hosts) is little-endian, so the representation of an
  unsigned \<open>n\<close>-byte value is its \<open>n\<close> base-256 digits, least significant first.
\<close>

fun le_bytes :: "nat \<Rightarrow> nat \<Rightarrow> byte list" where
  "le_bytes 0 v = []"
| "le_bytes (Suc n) v = of_nat (v mod 256) # le_bytes n (v div 256)"

fun le_val :: "byte list \<Rightarrow> nat" where
  "le_val [] = 0"
| "le_val (b # bs) = unat b + 256 * le_val bs"

definition emit_u8 :: "byte \<Rightarrow> byte list" where
  "emit_u8 v = [v]"

definition emit_u32 :: "u32 \<Rightarrow> byte list" where
  "emit_u32 v = le_bytes 4 (unat v)"

definition emit_i32 :: "i32 \<Rightarrow> byte list" where
  "emit_i32 v = le_bytes 4 (unat v)"

definition emit_u64 :: "u64 \<Rightarrow> byte list" where
  "emit_u64 v = le_bytes 8 (unat v)"

datatype error =
    UnexpectedEOF          \<comment> \<open>\<open>"checkpoint: unexpected EOF"\<close>\<close>
  | BadMagic               \<comment> \<open>\<open>"checkpoint: bad magic"\<close>\<close>
  | UnsupportedVersion u32 \<comment> \<open>\<open>"checkpoint: unsupported version N"\<close>\<close>
  | ArenaOverrun           \<comment> \<open>no exception: \<open>memcpy\<close> to a range outside the arena\<close>
  | BlobOverrun            \<comment> \<open>no exception: \<open>memcpy\<close> from beyond the end of the blob\<close>

text \<open>
  A \<open>Reader\<close> is the pair of pointers \<open>p\<close> and \<open>end\<close>; the model keeps the bytes between
  them. The pointers themselves matter in one respect: the test \<open>p + len > end\<close> of
  \<open>read\<close> and \<open>read_into\<close> adds in 64 bits. Let \<open>headroom\<close> be the number of bytes between
  \<open>end\<close> and the top of the address space (\<open>2 ^ 64 - end\<close>; it is fixed by the arguments
  \<open>data\<close> and \<open>size\<close> of \<open>load_checkpoint\<close>). With \<open>p = end - remaining\<close>:
  \<^item> for \<open>len \<le> remaining\<close> the sum does not pass \<open>end\<close>, and the bytes are copied;
  \<^item> for \<open>remaining < len < remaining + headroom\<close> the sum passes \<open>end\<close> without
    wrapping, and \<open>unexpected EOF\<close> is thrown;
  \<^item> from \<open>len = remaining + headroom\<close> on the sum wraps to an address below \<open>p\<close>, nothing
    is thrown, and \<open>memcpy\<close> reads \<open>len\<close> bytes from \<open>p\<close>, beyond the end of the blob.
  A read returns \<open>Inl\<close> of what went wrong or \<open>Inr\<close> of the value and the advanced reader;
  the caller adds the live state at that moment.
\<close>

type_synonym Reader = "byte list"

definition remaining :: "Reader \<Rightarrow> nat" where
  "remaining r = length r"

definition bounds_check :: "nat \<Rightarrow> nat \<Rightarrow> Reader \<Rightarrow> error option" where
  "bounds_check headroom len r =
     (if len \<le> remaining r then None
      else if len < remaining r + headroom then Some UnexpectedEOF
      else Some BlobOverrun)"

definition read_into :: "nat \<Rightarrow> nat \<Rightarrow> Reader \<Rightarrow> error + (byte list \<times> Reader)" where
  "read_into headroom len r =
     (case bounds_check headroom len r of Some e \<Rightarrow> Inl e
      | None \<Rightarrow> Inr (take len r, drop len r))"

definition read_u8 :: "nat \<Rightarrow> Reader \<Rightarrow> error + (byte \<times> Reader)" where
  "read_u8 headroom r =
     (case bounds_check headroom 1 r of Some e \<Rightarrow> Inl e
      | None \<Rightarrow> Inr (of_nat (le_val (take 1 r)), drop 1 r))"

definition read_u32 :: "nat \<Rightarrow> Reader \<Rightarrow> error + (u32 \<times> Reader)" where
  "read_u32 headroom r =
     (case bounds_check headroom 4 r of Some e \<Rightarrow> Inl e
      | None \<Rightarrow> Inr (of_nat (le_val (take 4 r)), drop 4 r))"

definition read_i32 :: "nat \<Rightarrow> Reader \<Rightarrow> error + (i32 \<times> Reader)" where
  "read_i32 headroom r =
     (case bounds_check headroom 4 r of Some e \<Rightarrow> Inl e
      | None \<Rightarrow> Inr (of_nat (le_val (take 4 r)), drop 4 r))"

definition read_u64 :: "nat \<Rightarrow> Reader \<Rightarrow> error + (u64 \<times> Reader)" where
  "read_u64 headroom r =
     (case bounds_check headroom 8 r of Some e \<Rightarrow> Inl e
      | None \<Rightarrow> Inr (of_nat (le_val (take 8 r)), drop 8 r))"

text \<open>A failed read ends the sequence of reads it is part of.\<close>

definition bind_read :: "error + 'a \<Rightarrow> ('a \<Rightarrow> error + 'b) \<Rightarrow> error + 'b" where
  "bind_read x f = (case x of Inl e \<Rightarrow> Inl e | Inr v \<Rightarrow> f v)"

definition MAGIC :: "byte list" where
  "MAGIC = [0x46, 0x52, 0x49, 0x53, 0x43, 0x59, 0x43, 0x4B]"

definition VERSION :: u32 where
  "VERSION = 2"

definition CHUNK_SIZE :: nat where
  "CHUNK_SIZE = 65536"

definition SENTINEL_ADDR :: u64 where
  "SENTINEL_ADDR = 0xFFFFFFFFFFFFFFFF"

section \<open>Sparse arena encoding (save_checkpoint, lines 172-221)\<close>

text \<open>
  The output vector \<open>out\<close> is only ever appended to, so each part of the writer is modelled
  by the bytes it appends. The arena is the list of its bytes; offsets and sizes are
  \<open>size_t\<close> values, kept as naturals (an arena is smaller than \<open>2 ^ 64\<close> bytes).
\<close>

definition qword_at :: "byte list \<Rightarrow> nat \<Rightarrow> nat \<Rightarrow> u64" where
  "qword_at arena offset q = of_nat (le_val (take 8 (drop (offset + 8 * q) arena)))"

text \<open>Lines 181-188: the window at \<open>offset\<close> is scanned as 64-bit words.\<close>

definition chunk_all_zero :: "byte list \<Rightarrow> nat \<Rightarrow> bool" where
  "chunk_all_zero arena offset = list_all (\<lambda>q. qword_at arena offset q = 0) [0..<CHUNK_SIZE div 8]"

definition emit_chunk :: "nat \<Rightarrow> nat \<Rightarrow> byte list \<Rightarrow> byte list" where
  "emit_chunk guest_addr len payload = emit_u64 (of_nat guest_addr) @ emit_u64 (of_nat len) @ payload"

text \<open>Lines 179-199: the loop over the full windows.\<close>

function save_chunks :: "byte list \<Rightarrow> nat \<Rightarrow> byte list" where
  "save_chunks arena offset =
     (if offset + CHUNK_SIZE \<le> length arena then
        (if chunk_all_zero arena offset then []
         else emit_chunk offset CHUNK_SIZE (take CHUNK_SIZE (drop offset arena)))
        @ save_chunks arena (offset + CHUNK_SIZE)
      else [])"
  by pat_completeness auto
termination
  by (relation "measure (\<lambda>(arena, offset). length arena - offset)") (auto simp: CHUNK_SIZE_def)

declare save_chunks.simps [simp del]

text \<open>Lines 201-217: the trailing partial window, scanned byte by byte.\<close>

definition save_tail :: "byte list \<Rightarrow> byte list" where
  "save_tail arena =
     (let arena_size = length arena;
          tail_offset = (arena_size div CHUNK_SIZE) * CHUNK_SIZE
      in if tail_offset < arena_size then
           (let tail_len = arena_size - tail_offset;
                tail = take tail_len (drop tail_offset arena)
            in if list_all (\<lambda>b. b = 0) tail then []
               else emit_chunk tail_offset tail_len tail)
         else [])"

text \<open>Lines 219-221.\<close>

definition sentinel_record :: "byte list" where
  "sentinel_record = emit_u64 SENTINEL_ADDR @ emit_u64 0"

definition save_arena :: "byte list \<Rightarrow> byte list" where
  "save_arena arena = save_chunks arena 0 @ save_tail arena @ sentinel_record"

section \<open>Sparse arena decoding (load_checkpoint, lines 341-368)\<close>

text \<open>
  The loop state is the arena, the list of records skipped with a warning on \<open>stderr\<close>
  (line 358) and the reader. \<open>guest_addr + len\<close> is a sum of two \<open>uint64_t\<close> and wraps.
  When the wrapped sum passes the test of line 357 although the range lies outside the
  arena, \<open>read_into\<close> copies to memory that is not the arena's; the model stops there with
  \<open>ArenaOverrun\<close>. The two header reads follow \<open>remaining() >= 16\<close> and cannot fail.
\<close>

function load_chunks ::
  "nat \<Rightarrow> byte list \<Rightarrow> (u64 \<times> u64) list \<Rightarrow> Reader
     \<Rightarrow> (error \<times> byte list) + (byte list \<times> (u64 \<times> u64) list \<times> Reader)" where
  "load_chunks headroom arena warned r =
     (if remaining r < 16 then Inr (arena, warned, r)
      else case read_u64 headroom r of Inl e \<Rightarrow> Inl (e, arena) | Inr (guest_addr, r1) \<Rightarrow>
           (case read_u64 headroom r1 of Inl e \<Rightarrow> Inl (e, arena) | Inr (len, r2) \<Rightarrow>
              if guest_addr = SENTINEL_ADDR then Inr (arena, warned, r2)
              else if unat (guest_addr + len) > length arena then
                load_chunks headroom arena (warned @ [(guest_addr, len)])
                  (if remaining r2 \<ge> unat len then drop (unat len) r2 else r2)
              else (case read_into headroom (unat len) r2 of
                      Inl e \<Rightarrow> Inl (e, arena)
                    | Inr (payload, r3) \<Rightarrow>
                        if unat guest_addr + unat len > length arena then Inl (ArenaOverrun, arena)
                        else load_chunks headroom
                               (take (unat guest_addr) arena @ payload
                                  @ drop (unat guest_addr + unat len) arena)
                               warned r3)))"
  by pat_completeness auto
termination
  by (relation "measure (\<lambda>(headroom, arena, warned, r). length r)")
     (auto simp: read_u64_def read_into_def bounds_check_def remaining_def
           split: if_splits option.splits)

declare load_chunks.simps [simp del]

text \<open>Lines 342-368: zero the arena (\<open>memset\<close>), then apply the records.\<close>

definition load_arena ::
  "nat \<Rightarrow> byte list \<Rightarrow> Reader
     \<Rightarrow> (error \<times> byte list) + (byte list \<times> (u64 \<times> u64) list \<times> Reader)" where
  "load_arena headroom arena r = load_chunks headroom (replicate (length arena) 0) [] r"

section \<open>The machine state that a checkpoint captures\<close>

record PageAttributes =
  attr_read :: bool
  attr_write :: bool
  attr_exec :: bool

record CpuState =
  pc :: u64
  fcsr :: u32
  reg :: "u64 list"   \<comment> \<open>\<open>cpu.reg(i)\<close>, x0-x31\<close>
  fl :: "u64 list"    \<comment> \<open>\<open>registers().getfl(i).i64\<close>, f0-f31\<close>

record ExecContext =
  exec_base :: u64
  exec_rw_start :: u64
  exec_rw_end :: u64
  interp_base :: u64
  interp_rw_start :: u64
  interp_rw_end :: u64
  interp_entry :: u64
  original_stack_top :: u64
  heap_start :: u64
  heap_size :: u64
  brk_base :: u64
  brk_current :: u64
  brk_overridden :: bool
  dynamic :: bool

text \<open>
  The containers of \<open>syscalls.hpp\<close> and the page table are kept as association lists in
  their enumeration order, which is what \<open>save_checkpoint\<close> iterates over. An epoll interest
  is the pair (\<open>events\<close>, \<open>data\<close>); an epoll instance is its \<open>interests\<close> container.
\<close>

type_synonym EpollInterest = "u32 \<times> u64"
type_synonym EpollInstance = "(i32 \<times> EpollInterest) list"

text \<open>
  \<open>machine\<close> holds the \<open>riscv::Machine\<close> members that the checkpoint code touches and the
  globals of namespace \<open>syscalls\<close>. \<open>g_sched\<close> is the object representation of the
  scheduler, \<open>sizeof(g_sched)\<close> bytes long. \<open>execute_segments\<close> counts the cached decoded
  execute segments that \<open>evict_execute_segments\<close> drops.
\<close>

record machine =
  cpu :: CpuState
  arena :: "byte list"
  pages :: "(u64 \<times> PageAttributes) list"
  mmap_address :: u64
  execute_segments :: nat
  g_exec_ctx :: ExecContext
  g_sched :: "byte list"
  g_next_pid :: i32
  g_next_epoll_fd :: i32
  g_epoll_instances :: "(i32 \<times> EpollInstance) list"
  g_eventfd_counters :: "(i32 \<times> u64) list"
  g_waiting_for_stdin :: bool

section \<open>save_checkpoint (lines 73-227)\<close>

definition save_header :: "byte list" where
  "save_header = MAGIC @ emit_u32 VERSION @ emit_u32 0"

definition save_cpu :: "CpuState \<Rightarrow> byte list" where
  "save_cpu c =
     emit_u64 (pc c) @ emit_u32 (fcsr c) @ emit_u32 0
     @ concat (map (\<lambda>i. emit_u64 (reg c ! i)) [0..<32])
     @ concat (map (\<lambda>i. emit_u64 (fl c ! i)) [0..<32])"

definition save_memory_management :: "machine \<Rightarrow> byte list" where
  "save_memory_management m =
     emit_u64 (mmap_address m)
     @ emit_u64 (brk_base (g_exec_ctx m)) @ emit_u64 (brk_current (g_exec_ctx m))"

definition save_exec_ctx :: "ExecContext \<Rightarrow> byte list" where
  "save_exec_ctx e =
     emit_u64 (exec_base e) @ emit_u64 (exec_rw_start e) @ emit_u64 (exec_rw_end e)
     @ emit_u64 (interp_base e) @ emit_u64 (interp_rw_start e) @ emit_u64 (interp_rw_end e)
     @ emit_u64 (interp_entry e) @ emit_u64 (original_stack_top e)
     @ emit_u64 (heap_start e) @ emit_u64 (heap_size e)
     @ emit_u8 (if brk_overridden e then 1 else 0) @ emit_u8 (if dynamic e then 1 else 0)
     @ concat (map (\<lambda>i. emit_u8 0) [0..<6])"

definition save_sched :: "machine \<Rightarrow> byte list" where
  "save_sched m = g_sched m @ emit_i32 (g_next_pid m) @ emit_i32 (g_next_epoll_fd m)"

definition save_interest :: "i32 \<times> EpollInterest \<Rightarrow> byte list" where
  "save_interest = (\<lambda>(fd, events, data). emit_i32 fd @ emit_u32 events @ emit_u64 data)"

definition save_epoll_instance :: "i32 \<times> EpollInstance \<Rightarrow> byte list" where
  "save_epoll_instance = (\<lambda>(epfd, interests).
     emit_i32 epfd @ emit_u32 (of_nat (length interests)) @ concat (map save_interest interests))"

definition save_epoll :: "(i32 \<times> EpollInstance) list \<Rightarrow> byte list" where
  "save_epoll insts = emit_u32 (of_nat (length insts)) @ concat (map save_epoll_instance insts)"

definition save_eventfd :: "(i32 \<times> u64) list \<Rightarrow> byte list" where
  "save_eventfd counters =
     emit_u32 (of_nat (length counters))
     @ concat (map (\<lambda>(fd, counter). emit_i32 fd @ emit_u64 counter) counters)"

definition exec_page_list :: "(u64 \<times> PageAttributes) list \<Rightarrow> u64 list" where
  "exec_page_list pgs = map fst (filter (\<lambda>(pageno, attr). attr_exec attr) pgs)"

definition save_exec_pages :: "(u64 \<times> PageAttributes) list \<Rightarrow> byte list" where
  "save_exec_pages pgs =
     (let exec_pages = exec_page_list pgs
      in emit_u64 (of_nat (length exec_pages)) @ concat (map emit_u64 exec_pages))"

text \<open>Lines 77-170: everything that precedes the arena section.\<close>

definition checkpoint_prefix :: "machine \<Rightarrow> byte list" where
  "checkpoint_prefix m =
     save_header @ save_cpu (cpu m) @ save_memory_management m @ save_exec_ctx (g_exec_ctx m)
     @ save_sched m @ save_epoll (g_epoll_instances m) @ save_eventfd (g_eventfd_counters m)
     @ save_exec_pages (pages m)"

definition save_checkpoint :: "machine \<Rightarrow> byte list" where
  "save_checkpoint m = checkpoint_prefix m @ save_arena (arena m)"

text \<open>
  What the C++ types and the data model (spec, section 3) guarantee of a live machine: two
  register files of 32 entries, containers with unique keys whose sizes fit the 32-bit
  counts written to the blob, and an arena and page list smaller than \<open>2 ^ 64\<close>.
\<close>

definition well_formed :: "machine \<Rightarrow> bool" where
  "well_formed m \<longleftrightarrow>
     length (reg (cpu m)) = 32 \<and> length (fl (cpu m)) = 32
     \<and> distinct (map fst (g_epoll_instances m))
     \<and> length (g_epoll_instances m) < 2 ^ 32
     \<and> list_all (\<lambda>(epfd, interests). distinct (map fst interests) \<and> length interests < 2 ^ 32)
           (g_epoll_instances m)
     \<and> distinct (map fst (g_eventfd_counters m))
     \<and> length (g_eventfd_counters m) < 2 ^ 32
     \<and> length (exec_page_list (pages m)) < 2 ^ 64
     \<and> length (arena m) < 2 ^ 64"

text \<open>The mappings as finite maps, whatever the enumeration order of the containers.\<close>

definition epoll_map :: "(i32 \<times> EpollInstance) list \<Rightarrow> i32 \<rightharpoonup> (i32 \<rightharpoonup> EpollInterest)" where
  "epoll_map insts = map_of (map (\<lambda>(epfd, interests). (epfd, map_of interests)) insts)"

section \<open>load_checkpoint (lines 245-415)\<close>

text \<open>A counted loop of reads: \<open>for (i = 0; i < n; i++) xs[i] = r.read<T>()\<close>.\<close>

fun read_n :: "(Reader \<Rightarrow> error + ('a \<times> Reader)) \<Rightarrow> nat \<Rightarrow> Reader \<Rightarrow> error + ('a list \<times> Reader)" where
  "read_n rd 0 r = Inr ([], r)"
| "read_n rd (Suc n) r =
     (case rd r of Inl e \<Rightarrow> Inl e
      | Inr (v, r1) \<Rightarrow>
          (case read_n rd n r1 of Inl e \<Rightarrow> Inl e | Inr (vs, r2) \<Rightarrow> Inr (v # vs, r2)))"

text \<open>Lines 248-258: the header. Nothing but the reader has been touched when it throws.\<close>

definition read_header :: "nat \<Rightarrow> Reader \<Rightarrow> error + Reader" where
  "read_header headroom r =
     (case read_into headroom 8 r of Inl e \<Rightarrow> Inl e
      | Inr (magic, r1) \<Rightarrow>
          if magic \<noteq> MAGIC then Inl BadMagic
          else (case read_u32 headroom r1 of Inl e \<Rightarrow> Inl e
                | Inr (version, r2) \<Rightarrow>
                    if version \<noteq> VERSION then Inl (UnsupportedVersion version)
                    else (case read_u32 headroom r2 of Inl e \<Rightarrow> Inl e
                          | Inr (flags, r3) \<Rightarrow> Inr r3)))"

text \<open>
  Lines 260-294: CPU state, memory management and exec context are read into local
  variables. The result holds the locals in the shape in which lines 380-405 store them.
\<close>

definition read_locals :: "nat \<Rightarrow> Reader \<Rightarrow> error + ((CpuState \<times> u64 \<times> ExecContext) \<times> Reader)" where
  "read_locals headroom r0 =
     bind_read (read_u64 headroom r0) (\<lambda>(pc', r).
     bind_read (read_u32 headroom r) (\<lambda>(fcsr', r).
     bind_read (read_u32 headroom r) (\<lambda>(pad, r).
     bind_read (read_n (read_u64 headroom) 32 r) (\<lambda>(int_regs, r).
     bind_read (read_n (read_u64 headroom) 32 r) (\<lambda>(fp_regs, r).
     bind_read (read_u64 headroom r) (\<lambda>(mmap_addr, r).
     bind_read (read_u64 headroom r) (\<lambda>(brk_base', r).
     bind_read (read_u64 headroom r) (\<lambda>(brk_current', r).
     bind_read (read_u64 headroom r) (\<lambda>(exec_base', r).
     bind_read (read_u64 headroom r) (\<lambda>(exec_rw_start', r).
     bind_read (read_u64 headroom r) (\<lambda>(exec_rw_end', r).
     bind_read (read_u64 headroom r) (\<lambda>(interp_base', r).
     bind_read (read_u64 headroom r) (\<lambda>(interp_rw_start', r).
     bind_read (read_u64 headroom r) (\<lambda>(interp_rw_end', r).
     bind_read (read_u64 headroom r) (\<lambda>(interp_entry', r).
     bind_read (read_u64 headroom r) (\<lambda>(original_stack_top', r).
     bind_read (read_u64 headroom r) (\<lambda>(heap_start', r).
     bind_read (read_u64 headroom r) (\<lambda>(heap_size', r).
     bind_read (read_u8 headroom r) (\<lambda>(brk_overridden', r).
     bind_read (read_u8 headroom r) (\<lambda>(dynamic', r).
     bind_read (read_n (read_u8 headroom) 6 r) (\<lambda>(padding, r).
       Inr ((\<lparr>pc = pc', fcsr = fcsr', reg = int_regs, fl = fp_regs\<rparr>,
             mmap_addr,
             \<lparr>exec_base = exec_base', exec_rw_start = exec_rw_start',
              exec_rw_end = exec_rw_end', interp_base = interp_base',
              interp_rw_start = interp_rw_start', interp_rw_end = interp_rw_end',
              interp_entry = interp_entry', original_stack_top = original_stack_top',
              heap_start = heap_start', heap_size = heap_size',
              brk_base = brk_base', brk_current = brk_current',
              brk_overridden = (brk_overridden' \<noteq> 0), dynamic = (dynamic' \<noteq> 0)\<rparr>), r))
     ))))))))))))))))))))"

text \<open>
  \<open>c[k]\<close> on a map: the entry is created with a default value when the key is absent.
\<close>

definition subscript :: "'k \<Rightarrow> 'v \<Rightarrow> ('k \<times> 'v) list \<Rightarrow> ('k \<times> 'v) list" where
  "subscript k d c = (if k \<in> fst ` set c then c else c @ [(k, d)])"

definition at_key :: "'k \<Rightarrow> 'v \<Rightarrow> ('k \<times> 'v) list \<Rightarrow> 'v" where
  "at_key k d c = (case map_of c k of Some v \<Rightarrow> v | None \<Rightarrow> d)"

text \<open>
  Lines 309-314, 305-315 and 323-327. These loops store into the live containers, so a
  failed read returns the container as it stands at the throw.
\<close>

fun load_interests ::
  "nat \<Rightarrow> nat \<Rightarrow> EpollInstance \<Rightarrow> Reader \<Rightarrow> (error \<times> EpollInstance) + (EpollInstance \<times> Reader)" where
  "load_interests headroom 0 inst r = Inr (inst, r)"
| "load_interests headroom (Suc j) inst r =
     (case read_i32 headroom r of Inl e \<Rightarrow> Inl (e, inst)
      | Inr (fd, r1) \<Rightarrow>
          (case read_u32 headroom r1 of Inl e \<Rightarrow> Inl (e, inst)
           | Inr (events, r2) \<Rightarrow>
               (case read_u64 headroom r2 of Inl e \<Rightarrow> Inl (e, inst)
                | Inr (data, r3) \<Rightarrow>
                    load_interests headroom j (AList.update fd (events, data) inst) r3)))"

fun load_epoll_instances ::
  "nat \<Rightarrow> nat \<Rightarrow> (i32 \<times> EpollInstance) list \<Rightarrow> Reader
     \<Rightarrow> (error \<times> (i32 \<times> EpollInstance) list) + ((i32 \<times> EpollInstance) list \<times> Reader)" where
  "load_epoll_instances headroom 0 insts r = Inr (insts, r)"
| "load_epoll_instances headroom (Suc i) insts r =
     (case read_i32 headroom r of Inl e \<Rightarrow> Inl (e, insts)
      | Inr (epfd, r1) \<Rightarrow>
          (case read_u32 headroom r1 of Inl e \<Rightarrow> Inl (e, insts)
           | Inr (num_interests, r2) \<Rightarrow>
               (let insts1 = subscript epfd [] insts
                in case load_interests headroom (unat num_interests) (at_key epfd [] insts1) r2 of
                     Inl (e, inst) \<Rightarrow> Inl (e, AList.update epfd inst insts1)
                   | Inr (inst, r3) \<Rightarrow>
                       load_epoll_instances headroom i (AList.update epfd inst insts1) r3)))"

fun load_eventfd_counters ::
  "nat \<Rightarrow> nat \<Rightarrow> (i32 \<times> u64) list \<Rightarrow> Reader
     \<Rightarrow> (error \<times> (i32 \<times> u64) list) + ((i32 \<times> u64) list \<times> Reader)" where
  "load_eventfd_counters headroom 0 counters r = Inr (counters, r)"
| "load_eventfd_counters headroom (Suc i) counters r =
     (case read_i32 headroom r of Inl e \<Rightarrow> Inl (e, counters)
      | Inr (fd, r1) \<Rightarrow>
          (case read_u64 headroom r1 of Inl e \<Rightarrow> Inl (e, counters)
           | Inr (counter, r2) \<Rightarrow>
               load_eventfd_counters headroom i (AList.update fd counter counters) r2))"

text \<open>
  Lines 296-329: scheduler block, counters and the two mappings are read straight into the
  globals. The error case carries the machine as it is when the exception leaves.
\<close>

definition load_kernel_state ::
  "machine \<Rightarrow> nat \<Rightarrow> Reader \<Rightarrow> (error \<times> machine) + (machine \<times> Reader)" where
  "load_kernel_state m headroom r =
     (case read_into headroom (length (g_sched m)) r of Inl e \<Rightarrow> Inl (e, m)
      | Inr (sched, r1) \<Rightarrow>
     (let m1 = m\<lparr>g_sched := sched\<rparr> in
      case read_i32 headroom r1 of Inl e \<Rightarrow> Inl (e, m1)
      | Inr (next_pid, r2) \<Rightarrow>
     (let m2 = m1\<lparr>g_next_pid := next_pid\<rparr> in
      case read_i32 headroom r2 of Inl e \<Rightarrow> Inl (e, m2)
      | Inr (next_epoll_fd, r3) \<Rightarrow>
     (let m3 = m2\<lparr>g_next_epoll_fd := next_epoll_fd\<rparr> in
      case read_u32 headroom r3 of Inl e \<Rightarrow> Inl (e, m3)
      | Inr (num_epoll, r4) \<Rightarrow>
     (case load_epoll_instances headroom (unat num_epoll) [] r4 of
        Inl (e, insts) \<Rightarrow> Inl (e, m3\<lparr>g_epoll_instances := insts\<rparr>)
      | Inr (insts, r5) \<Rightarrow>
     (let m4 = m3\<lparr>g_epoll_instances := insts\<rparr> in
      case read_u32 headroom r5 of Inl e \<Rightarrow> Inl (e, m4)
      | Inr (num_eventfd, r6) \<Rightarrow>
     (case load_eventfd_counters headroom (unat num_eventfd) [] r6 of
        Inl (e, counters) \<Rightarrow> Inl (e, m4\<lparr>g_eventfd_counters := counters\<rparr>)
      | Inr (counters, r7) \<Rightarrow> Inr (m4\<lparr>g_eventfd_counters := counters\<rparr>, r7))))))))"

text \<open>
  Lines 331-336. (The vector is allocated from the count before the reads; a count the
  allocator refuses throws as well, with the same live state, and is not told apart here.)
\<close>

definition read_exec_page_list :: "nat \<Rightarrow> Reader \<Rightarrow> error + (u64 list \<times> Reader)" where
  "read_exec_page_list headroom r =
     (case read_u64 headroom r of Inl e \<Rightarrow> Inl e
      | Inr (num_exec_pages, r1) \<Rightarrow> read_n (read_u64 headroom) (unat num_exec_pages) r1)"

text \<open>Lines 370-374.\<close>

definition exec_attr :: PageAttributes where
  "exec_attr = \<lparr>attr_read = True, attr_write = False, attr_exec = True\<rparr>"

text \<open>
  Modelled from the spec: \<open>Memory::set_pageno_attr\<close> belongs to libriscv and is not part of
  the sources; it gives the page with that number the attributes, creating the page when
  there is none (spec 4.3, step 5).
\<close>

definition set_pageno_attr ::
  "u64 \<Rightarrow> PageAttributes \<Rightarrow> (u64 \<times> PageAttributes) list \<Rightarrow> (u64 \<times> PageAttributes) list" where
  "set_pageno_attr pageno attr pgs = AList.update pageno attr pgs"

text \<open>Lines 375-377.\<close>

definition restore_exec_pages ::
  "u64 list \<Rightarrow> (u64 \<times> PageAttributes) list \<Rightarrow> (u64 \<times> PageAttributes) list" where
  "restore_exec_pages exec_pages pgs = fold (\<lambda>pageno. set_pageno_attr pageno exec_attr) exec_pages pgs"

text \<open>
  The whole of \<open>load_checkpoint\<close>. Its arguments \<open>data\<close> and \<open>size\<close> are the bytes of the
  blob and, through the address of their end, the headroom of the reader. \<open>Inl (e, m)\<close> is
  \<open>e\<close> leaving the function with the live state \<open>m\<close>; \<open>Inr m\<close> is the normal return.
  \<open>cpu.jump(pc)\<close> is taken as the assignment of the program counter.
\<close>

definition load_checkpoint :: "machine \<Rightarrow> nat \<Rightarrow> byte list \<Rightarrow> (error \<times> machine) + machine" where
  "load_checkpoint machine headroom data =
     (case read_header headroom data of Inl e \<Rightarrow> Inl (e, machine)
      | Inr r \<Rightarrow>
     (case read_locals headroom r of Inl e \<Rightarrow> Inl (e, machine)
      | Inr ((cpu', mmap_addr, ctx'), r1) \<Rightarrow>
     (case load_kernel_state machine headroom r1 of Inl em \<Rightarrow> Inl em
      | Inr (m1, r2) \<Rightarrow>
     (case read_exec_page_list headroom r2 of Inl e \<Rightarrow> Inl (e, m1)
      | Inr (exec_pages, r3) \<Rightarrow>
     (let m2 = m1\<lparr>execute_segments := 0\<rparr> in
      case load_arena headroom (arena m2) r3 of
        Inl (e, arena') \<Rightarrow> Inl (e, m2\<lparr>arena := arena'\<rparr>)
      | Inr (arena', warned, r4) \<Rightarrow>
          Inr (m2\<lparr>arena := arena',
                  pages := restore_exec_pages exec_pages (pages m2),
                  cpu := cpu',
                  mmap_address := mmap_addr,
                  g_exec_ctx := ctx',
                  g_waiting_for_stdin := True\<rparr>))))))"

text \<open>
  The reads of lines 246-336 as one function: what \<open>load_checkpoint\<close> has read and stored
  when it reaches the arena section. It only serves the proofs; \<open>load_checkpoint\<close> is shown
  to be this function followed by lines 338-410 (\<open>load_checkpoint_parse\<close>).
\<close>

definition parse_prefix ::
  "machine \<Rightarrow> nat \<Rightarrow> byte list
     \<Rightarrow> (error \<times> machine) + ((CpuState \<times> u64 \<times> ExecContext) \<times> machine \<times> u64 list \<times> Reader)" where
  "parse_prefix machine headroom data =
     (case read_header headroom data of Inl e \<Rightarrow> Inl (e, machine)
      | Inr r \<Rightarrow>
     (case read_locals headroom r of Inl e \<Rightarrow> Inl (e, machine)
      | Inr (locals, r1) \<Rightarrow>
     (case load_kernel_state machine headroom r1 of Inl em \<Rightarrow> Inl em
      | Inr (m1, r2) \<Rightarrow>
     (case read_exec_page_list headroom r2 of Inl e \<Rightarrow> Inl (e, m1)
      | Inr (exec_pages, r3) \<Rightarrow> Inr (locals, m1, exec_pages, r3)))))"

text \<open>
  Notions for statements about the arena section. A list of (offset, payload) pairs stands
  for a sequence of records; \<open>chunk_stream\<close> is its byte stream (per record the offset and
  the payload length as 8-byte little-endian values, then the payload), \<open>accepted_chunks\<close>
  says that every record is non-empty and lies within an arena of \<open>n\<close> bytes, and
  \<open>apply_chunks\<close> writes the payloads into an arena at their offsets, in order.
\<close>

definition chunk_stream :: "(nat \<times> byte list) list \<Rightarrow> byte list" where
  "chunk_stream recs =
     concat (map (\<lambda>(offset, payload).
                    le_bytes 8 offset @ le_bytes 8 (length payload) @ payload) recs)"

definition accepted_chunks :: "nat \<Rightarrow> (nat \<times> byte list) list \<Rightarrow> bool" where
  "accepted_chunks n recs =
     list_all (\<lambda>(offset, payload). offset + length payload \<le> n \<and> 0 < length payload) recs"

definition apply_chunks :: "byte list \<Rightarrow> (nat \<times> byte list) list \<Rightarrow> byte list" where
  "apply_chunks ar recs =
     foldl (\<lambda>a (offset, payload). take offset a @ payload @ drop (offset + length payload) a) ar recs"

text \<open>
  The page table as a map: whether the page with that number is executable
  (\<open>page.attr.exec\<close>).
\<close>

definition is_executable :: "(u64 \<times> PageAttributes) list \<Rightarrow> u64 \<Rightarrow> bool" where
  "is_executable pgs pageno = (case map_of pgs pageno of Some attr \<Rightarrow> attr_exec attr | None \<Rightarrow> False)"

section \<open>The guest shim (vh_preload.c)\<close>

text \<open>
  The shim runs in the guest. Each intercepted function performs one \<open>ecall\<close> and returns
  its result (cast to the return type), so a function is modelled by the call it issues: a
  raw Linux system call with its number and arguments, or a hypercall with its number and
  five arguments. \<open>int\<close> is a 32-bit word read as signed; \<open>long\<close>, \<open>size_t\<close> and pointers
  are 64-bit words; \<open>(long)fd\<close> sign-extends.
\<close>

type_synonym long = "64 word"

datatype call =
    Raw_syscall3 long long long long
  | Raw_syscall4 long long long long long
  | Vh_ecall i32 long long long long long

definition SYS_close :: long where "SYS_close = 57"
definition SYS_read :: long where "SYS_read = 63"
definition SYS_write :: long where "SYS_write = 64"
definition SYS_pread64 :: long where "SYS_pread64 = 67"

text \<open>Lines 84-96.\<close>

definition write_shim :: "i32 \<Rightarrow> long \<Rightarrow> long \<Rightarrow> call" where
  "write_shim fd buf count =
     (if fd = 99 then Vh_ecall 708 buf count 0 0 0
      else if 500 \<le> sint fd \<and> sint fd < 600 then Vh_ecall 802 (scast fd) buf count 0 0
      else if 2 < sint fd then Vh_ecall 601 (scast fd) buf count 0 0
      else Raw_syscall3 SYS_write (scast fd) buf count)"

text \<open>Lines 98-107.\<close>

definition read_shim :: "i32 \<Rightarrow> long \<Rightarrow> long \<Rightarrow> call" where
  "read_shim fd buf count =
     (if 500 \<le> sint fd \<and> sint fd < 600 then Vh_ecall 803 (scast fd) buf count 0 0
      else if 2 < sint fd then Vh_ecall 602 (scast fd) buf count 0 0
      else Raw_syscall3 SYS_read (scast fd) buf count)"

text \<open>Lines 109-113.\<close>

definition pread_shim :: "i32 \<Rightarrow> long \<Rightarrow> long \<Rightarrow> long \<Rightarrow> call" where
  "pread_shim fd buf count offset =
     (if 2 < sint fd then Vh_ecall 604 (scast fd) buf count offset 0
      else Raw_syscall4 SYS_pread64 (scast fd) buf count offset)"

text \<open>Lines 115-119.\<close>

definition close_shim :: "i32 \<Rightarrow> call" where
  "close_shim fd =
     (if 2 < sint fd then Vh_ecall 603 (scast fd) 0 0 0 0
      else Raw_syscall3 SYS_close (scast fd) 0 0)"

text \<open>
  Lines 126-137: \<open>memmove\<close>. Guest memory is a function from addresses to bytes; pointers
  are addresses, kept as naturals because pointer arithmetic inside an object does not
  wrap. The two loops of the local copy:
\<close>

function copy_forward :: "(nat \<Rightarrow> byte) \<Rightarrow> nat \<Rightarrow> nat \<Rightarrow> nat \<Rightarrow> nat \<Rightarrow> (nat \<Rightarrow> byte)" where
  "copy_forward mem d s i n =
     (if i < n then copy_forward (mem(d + i := mem (s + i))) d s (i + 1) n else mem)"
  by pat_completeness auto
termination
  by (relation "measure (\<lambda>(mem, d, s, i, n). n - i)") auto

declare copy_forward.simps [simp del]

function copy_backward :: "(nat \<Rightarrow> byte) \<Rightarrow> nat \<Rightarrow> nat \<Rightarrow> nat \<Rightarrow> (nat \<Rightarrow> byte)" where
  "copy_backward mem d s i =
     (if i > 0 then copy_backward (mem(d + (i - 1) := mem (s + (i - 1)))) d s (i - 1) else mem)"
  by pat_completeness auto
termination
  by (relation "measure (\<lambda>(mem, d, s, i). i)") auto

declare copy_backward.simps [simp del]

text \<open>
  The result is either the hypercall issued (whose result the function returns) or the
  memory after the local copy together with the returned pointer.
\<close>

definition memmove_shim :: "(nat \<Rightarrow> byte) \<Rightarrow> nat \<Rightarrow> nat \<Rightarrow> nat \<Rightarrow> call + ((nat \<Rightarrow> byte) \<times> nat)" where
  "memmove_shim mem dest src n =
     (if n > 1024 then Inl (Vh_ecall 703 (of_nat dest) (of_nat src) (of_nat n) 0 0)
      else Inr (if dest < src then copy_forward mem dest src 0 n
                else copy_backward mem dest src n, dest))"

section \<open>The hypercall harness (vh_harness.hpp)\<close>

text \<open>
  A handler reads its arguments from the registers a0-a5 (\<open>sysarg(i)\<close> is register
  \<open>10 + i\<close>), translates guest pointers with libriscv's \<open>memarray\<close> and \<open>memstring\<close>, calls
  one host primitive and stores one value in a0 (\<open>set_result\<close>). Sizes are those of the
  native LP64 build: \<open>int\<close> is 32 bits, \<open>long\<close>, \<open>size_t\<close> and addresses are 64 bits.

  A host pointer is null, a view of guest memory that \<open>memarray\<close> returned, an integer cast
  to a pointer (handler 706), or the characters of a string read from the guest.
\<close>

datatype hostptr = Nullptr | View u64 u64 | Raw u64 | CStr "byte list"

datatype exn = MachineException

record 'mem guest =
  regs :: "nat \<Rightarrow> u64"
  memory :: "'mem"

definition sysarg :: "'mem guest \<Rightarrow> nat \<Rightarrow> u64" where
  "sysarg m i = regs m (10 + i)"

definition set_result :: "long \<Rightarrow> 'mem guest \<Rightarrow> 'mem guest" where
  "set_result v m = m\<lparr>regs := (regs m)(10 := v)\<rparr>"

text \<open>
  What the handlers call and the sources do not contain is a parameter: libriscv's memory
  operations, which may throw a \<open>MachineException\<close> (and \<open>memarray\<close> may return null); the
  host's \<open>memmove\<close>, \<open>memcpy\<close>, \<open>inet_ntop\<close> and \<open>ntohs\<close> on translated views; and the five
  JavaScript primitives of \<open>library_vectorheart.js\<close>. A primitive returns a \<open>long\<close> and may
  have written guest memory through the pointers it was given; by the header of the file
  the primitives catch their own errors and return a negative value, so they do not throw.
\<close>

record 'mem env =
  memarray :: "'mem \<Rightarrow> u64 \<Rightarrow> u64 \<Rightarrow> exn + hostptr"
  memstring :: "'mem \<Rightarrow> u64 \<Rightarrow> exn + byte list"
  memory_write_i64 :: "'mem \<Rightarrow> u64 \<Rightarrow> u64 \<Rightarrow> exn + 'mem"
  host_memmove :: "'mem \<Rightarrow> hostptr \<Rightarrow> hostptr \<Rightarrow> u64 \<Rightarrow> 'mem"
  host_memcpy :: "'mem \<Rightarrow> hostptr \<Rightarrow> byte list \<Rightarrow> 'mem"
  read_sockaddr_in :: "'mem \<Rightarrow> hostptr \<Rightarrow> byte list \<times> i32"
  js_opfs_io :: "'mem \<Rightarrow> i32 \<Rightarrow> hostptr \<Rightarrow> u64 \<Rightarrow> i32 \<Rightarrow> long \<Rightarrow> long \<times> 'mem"
  js_net_proxy :: "'mem \<Rightarrow> i32 \<Rightarrow> byte list option \<Rightarrow> i32 \<Rightarrow> i32 \<Rightarrow> hostptr \<Rightarrow> u64 \<Rightarrow> long \<times> 'mem"
  js_dns_resolve :: "'mem \<Rightarrow> byte list \<Rightarrow> u64 \<Rightarrow> i32 \<Rightarrow> long \<times> byte list"
  js_compute_offload :: "'mem \<Rightarrow> i32 \<Rightarrow> hostptr \<Rightarrow> u64 \<Rightarrow> hostptr \<Rightarrow> u64 \<Rightarrow> long \<times> 'mem"
  js_gettime_ms :: long

text \<open>
  Lines 40-63: with \<open>__EMSCRIPTEN__\<close> the primitives are the JavaScript imports; without it
  they are the native stubs, which return \<open>-38\<close>. (The native \<open>js_gettime_ms\<close> reads the
  clock: a value from outside in both builds.)
\<close>

definition opfs_io ::
  "bool \<Rightarrow> 'mem env \<Rightarrow> 'mem \<Rightarrow> i32 \<Rightarrow> hostptr \<Rightarrow> u64 \<Rightarrow> i32 \<Rightarrow> long \<Rightarrow> long \<times> 'mem" where
  "opfs_io emscripten env mem fd buf len op off =
     (if emscripten then js_opfs_io env mem fd buf len op off else (- 38, mem))"

definition net_proxy ::
  "bool \<Rightarrow> 'mem env \<Rightarrow> 'mem \<Rightarrow> i32 \<Rightarrow> byte list option \<Rightarrow> i32 \<Rightarrow> i32 \<Rightarrow> hostptr \<Rightarrow> u64
     \<Rightarrow> long \<times> 'mem" where
  "net_proxy emscripten env mem fd ip port op buf len =
     (if emscripten then js_net_proxy env mem fd ip port op buf len else (- 38, mem))"

definition compute_offload ::
  "bool \<Rightarrow> 'mem env \<Rightarrow> 'mem \<Rightarrow> i32 \<Rightarrow> hostptr \<Rightarrow> u64 \<Rightarrow> hostptr \<Rightarrow> u64 \<Rightarrow> long \<times> 'mem" where
  "compute_offload emscripten env mem op p1 l1 p2 l2 =
     (if emscripten then js_compute_offload env mem op p1 l1 p2 l2 else (- 38, mem))"

text \<open>An exception of a translation leaves the handler; otherwise the handler goes on.\<close>

definition bind_exn :: "exn + 'a \<Rightarrow> ('a \<Rightarrow> exn + 'b) \<Rightarrow> exn + 'b" where
  "bind_exn x f = (case x of Inl e \<Rightarrow> Inl e | Inr v \<Rightarrow> f v)"

text \<open>\<open>m.set_result(primitive(...))\<close>: the value goes to a0, guest memory is as the primitive left it.\<close>

definition returns :: "'mem guest \<Rightarrow> long \<times> 'mem \<Rightarrow> exn + 'mem guest" where
  "returns m res = Inr (set_result (fst res) (m\<lparr>memory := snd res\<rparr>))"

text \<open>Lines 75-104: the storage band.\<close>

definition handler_600 :: "bool \<Rightarrow> 'mem env \<Rightarrow> 'mem guest \<Rightarrow> exn + 'mem guest" where
  "handler_600 emscripten env m =
     bind_exn (memstring env (memory m) (sysarg m 0)) (\<lambda>path.
       returns m (opfs_io emscripten env (memory m) 0 (CStr path) (of_nat (length path)) 600 0))"

definition handler_601 :: "bool \<Rightarrow> 'mem env \<Rightarrow> 'mem guest \<Rightarrow> exn + 'mem guest" where
  "handler_601 emscripten env m =
     (let fd = ucast (sysarg m 0); buf_addr = sysarg m 1; len = sysarg m 2
      in bind_exn (memarray env (memory m) buf_addr len) (\<lambda>buf.
           returns m (opfs_io emscripten env (memory m) fd buf len 601 0)))"

definition handler_602 :: "bool \<Rightarrow> 'mem env \<Rightarrow> 'mem guest \<Rightarrow> exn + 'mem guest" where
  "handler_602 emscripten env m =
     (let fd = ucast (sysarg m 0); buf_addr = sysarg m 1; len = sysarg m 2
      in bind_exn (memarray env (memory m) buf_addr len) (\<lambda>buf.
           returns m (opfs_io emscripten env (memory m) fd buf len 602 0)))"

definition handler_603 :: "bool \<Rightarrow> 'mem env \<Rightarrow> 'mem guest \<Rightarrow> exn + 'mem guest" where
  "handler_603 emscripten env m =
     returns m (opfs_io emscripten env (memory m) (ucast (sysarg m 0)) Nullptr 0 603 0)"

definition handler_604 :: "bool \<Rightarrow> 'mem env \<Rightarrow> 'mem guest \<Rightarrow> exn + 'mem guest" where
  "handler_604 emscripten env m =
     (let fd = ucast (sysarg m 0); buf_addr = sysarg m 1; len = sysarg m 2; off = sysarg m 3
      in bind_exn (memarray env (memory m) buf_addr len) (\<lambda>buf.
           returns m (opfs_io emscripten env (memory m) fd buf len 604 off)))"

text \<open>Lines 112-168: the compute band.\<close>

definition handler_700 :: "bool \<Rightarrow> 'mem env \<Rightarrow> 'mem guest \<Rightarrow> exn + 'mem guest" where
  "handler_700 emscripten env m =
     (let type = ucast (sysarg m 0); data_addr = sysarg m 1; len = sysarg m 2
      in bind_exn (memarray env (memory m) data_addr len) (\<lambda>data.
           returns m (compute_offload emscripten env (memory m) type data len Nullptr 0)))"

definition handler_703 :: "bool \<Rightarrow> 'mem env \<Rightarrow> 'mem guest \<Rightarrow> exn + 'mem guest" where
  "handler_703 emscripten env m =
     (let dest_addr = sysarg m 0; src_addr = sysarg m 1; len = sysarg m 2
      in bind_exn (memarray env (memory m) dest_addr len) (\<lambda>dest.
         bind_exn (memarray env (memory m) src_addr len) (\<lambda>src.
           returns m (dest_addr,
             if dest \<noteq> Nullptr \<and> src \<noteq> Nullptr \<and> len > 0
             then host_memmove env (memory m) dest src len else memory m))))"

text \<open>\<open>ms / 1000\<close> and \<open>ms % 1000\<close> are C++ division and remainder: they truncate towards zero.\<close>

definition handler_704 :: "bool \<Rightarrow> 'mem env \<Rightarrow> 'mem guest \<Rightarrow> exn + 'mem guest" where
  "handler_704 emscripten env m =
     (let addr = sysarg m 0
      in if addr \<noteq> 0 then
           (let ms = js_gettime_ms env;
                sec = (of_int (sint ms sdiv 1000) :: u64);
                usec = (of_int ((sint ms smod 1000) * 1000) :: u64)
            in bind_exn (memory_write_i64 env (memory m) addr sec) (\<lambda>mem1.
               bind_exn (memory_write_i64 env mem1 (addr + 8) usec) (\<lambda>mem2.
                 returns m (0, mem2))))
         else returns m (0, memory m))"

definition handler_705 :: "bool \<Rightarrow> 'mem env \<Rightarrow> 'mem guest \<Rightarrow> exn + 'mem guest" where
  "handler_705 emscripten env m =
     (let buf_addr = sysarg m 0; len = sysarg m 1
      in bind_exn (memarray env (memory m) buf_addr len) (\<lambda>buf.
           returns m (compute_offload emscripten env (memory m) 705 buf len Nullptr 0)))"

definition handler_706 :: "bool \<Rightarrow> 'mem env \<Rightarrow> 'mem guest \<Rightarrow> exn + 'mem guest" where
  "handler_706 emscripten env m =
     returns m (compute_offload emscripten env (memory m) 706
                  (Raw (sysarg m 0)) (sysarg m 1) (Raw (sysarg m 2)) (sysarg m 3))"

definition handler_708 :: "bool \<Rightarrow> 'mem env \<Rightarrow> 'mem guest \<Rightarrow> exn + 'mem guest" where
  "handler_708 emscripten env m =
     (let buf_addr = sysarg m 0; len = sysarg m 1
      in bind_exn (memarray env (memory m) buf_addr len) (\<lambda>buf.
           returns m (compute_offload emscripten env (memory m) 708 buf len Nullptr 0)))"

text \<open>
  Lines 175-229: the network band. \<open>sizeof(struct sockaddr_in)\<close> is 16; \<open>ip_buf\<close> is a
  zero-filled local buffer that \<open>js_dns_resolve\<close> fills, and \<open>strlen(ip_buf) + 1\<close> of its
  bytes are copied to the guest.
\<close>

definition handler_800 :: "bool \<Rightarrow> 'mem env \<Rightarrow> 'mem guest \<Rightarrow> exn + 'mem guest" where
  "handler_800 emscripten env m =
     (if emscripten then
        (let sockfd = ucast (sysarg m 0)
         in bind_exn (memarray env (memory m) (sysarg m 1) 16) (\<lambda>sin.
              if sin = Nullptr then returns m (- 14, memory m)
              else (let (ip_str, port) = read_sockaddr_in env (memory m) sin
                    in returns m (js_net_proxy env (memory m) sockfd (Some ip_str) port 800 Nullptr 0))))
      else returns m (- 38, memory m))"

definition handler_801 :: "bool \<Rightarrow> 'mem env \<Rightarrow> 'mem guest \<Rightarrow> exn + 'mem guest" where
  "handler_801 emscripten env m =
     (if emscripten then
        bind_exn (memstring env (memory m) (sysarg m 0)) (\<lambda>node.
          (let (ret, ip_buf) = js_dns_resolve env (memory m) node (of_nat (length node)) 0;
               res_ptr_addr = sysarg m 3
           in if ret = 0 \<and> res_ptr_addr \<noteq> 0 then
                bind_exn (memarray env (memory m) res_ptr_addr 128) (\<lambda>result_buf.
                  returns m (ret,
                    if result_buf \<noteq> Nullptr
                    then host_memcpy env (memory m) result_buf (takeWhile (\<lambda>b. b \<noteq> 0) ip_buf @ [0])
                    else memory m))
              else returns m (ret, memory m)))
      else returns m (- 38, memory m))"

definition handler_802 :: "bool \<Rightarrow> 'mem env \<Rightarrow> 'mem guest \<Rightarrow> exn + 'mem guest" where
  "handler_802 emscripten env m =
     (let fd = ucast (sysarg m 0); buf_addr = sysarg m 1; len = sysarg m 2
      in bind_exn (memarray env (memory m) buf_addr len) (\<lambda>buf.
           returns m (net_proxy emscripten env (memory m) fd None 0 802 buf len)))"

definition handler_803 :: "bool \<Rightarrow> 'mem env \<Rightarrow> 'mem guest \<Rightarrow> exn + 'mem guest" where
  "handler_803 emscripten env m =
     (let fd = ucast (sysarg m 0); buf_addr = sysarg m 1; len = sysarg m 2
      in bind_exn (memarray env (memory m) buf_addr len) (\<lambda>buf.
           returns m (net_proxy emscripten env (memory m) fd None 0 803 buf len)))"

text \<open>Lines 68-234: the table that \<open>setup_vh_harness\<close> installs.\<close>

definition setup_vh_harness ::
  "bool \<Rightarrow> 'mem env \<Rightarrow> nat \<Rightarrow> ('mem guest \<Rightarrow> exn + 'mem guest) option" where
  "setup_vh_harness emscripten env nr =
     (if nr = 600 then Some (handler_600 emscripten env)
      else if nr = 601 then Some (handler_601 emscripten env)
      else if nr = 602 then Some (handler_602 emscripten env)
      else if nr = 603 then Some (handler_603 emscripten env)
      else if nr = 604 then Some (handler_604 emscripten env)
      else if nr = 700 then Some (handler_700 emscripten env)
      else if nr = 703 then Some (handler_703 emscripten env)
      else if nr = 704 then Some (handler_704 emscripten env)
      else if nr = 705 then Some (handler_705 emscripten env)
      else if nr = 706 then Some (handler_706 emscripten env)
      else if nr = 708 then Some (handler_708 emscripten env)
      else if nr = 800 then Some (handler_800 emscripten env)
      else if nr = 801 then Some (handler_801 emscripten env)
      else if nr = 802 then Some (handler_802 emscripten env)
      else if nr = 803 then Some (handler_803 emscripten env)
      else None)"

text \<open>
  Forcing the host primitives to fail: every JavaScript primitive returns the code \<open>r\<close>,
  whatever its arguments.
\<close>

definition primitives_return :: "'mem env \<Rightarrow> long \<Rightarrow> bool" where
  "primitives_return env r \<longleftrightarrow>
     (\<forall>mem fd buf len op off. fst (js_opfs_io env mem fd buf len op off) = r)
     \<and> (\<forall>mem fd ip port op buf len. fst (js_net_proxy env mem fd ip port op buf len) = r)
     \<and> (\<forall>mem host host_len port. fst (js_dns_resolve env mem host host_len port) = r)
     \<and> (\<forall>mem op p1 l1 p2 l2. fst (js_compute_offload env mem op p1 l1 p2 l2) = r)
     \<and> js_gettime_ms env = r"

text \<open>
  The two outcomes of a handler: it is left by an exception that one of libriscv's memory
  operations threw, or it returns having written no register but a0.
\<close>

definition thrown_by_libriscv :: "'mem env \<Rightarrow> exn \<Rightarrow> bool" where
  "thrown_by_libriscv env e \<longleftrightarrow>
     (\<exists>mem addr len. memarray env mem addr len = Inl e)
     \<or> (\<exists>mem addr. memstring env mem addr = Inl e)
     \<or> (\<exists>mem addr v. memory_write_i64 env mem addr v = Inl e)"

definition only_result_written :: "'mem guest \<Rightarrow> 'mem guest \<Rightarrow> bool" where
  "only_result_written m m' \<longleftrightarrow> (\<forall>i. i \<noteq> 10 \<longrightarrow> regs m' i = regs m i)"

text \<open>
  A host whose primitives all fail with \<open>-1\<close>, over a guest memory without content, and a
  guest whose argument registers hold small non-zero values.
\<close>

definition failing_env :: "unit env" where
  "failing_env =
     \<lparr>memarray = (\<lambda>mem addr len. Inr (View addr len)),
      memstring = (\<lambda>mem addr. Inr []),
      memory_write_i64 = (\<lambda>mem addr v. Inr ()),
      host_memmove = (\<lambda>mem dest src len. ()),
      host_memcpy = (\<lambda>mem dest bs. ()),
      read_sockaddr_in = (\<lambda>mem sin. ([], 0)),
      js_opfs_io = (\<lambda>mem fd buf len op off. (- 1, ())),
      js_net_proxy = (\<lambda>mem fd ip port op buf len. (- 1, ())),
      js_dns_resolve = (\<lambda>mem host host_len port. (- 1, [])),
      js_compute_offload = (\<lambda>mem op p1 l1 p2 l2. (- 1, ())),
      js_gettime_ms = - 1\<rparr>"

definition demo_guest :: "unit guest" where
  "demo_guest = \<lparr>regs = (\<lambda>i. of_nat i), memory = ()\<rparr>"

section \<open>Two concrete machines\<close>

text \<open>
  A saved machine with a three-byte arena (a non-zero partial window), one executable and
  writable page, one epoll instance and one eventfd; and a target of the same build (same
  arena and scheduler sizes) whose state differs everywhere.
\<close>

definition demo_saved :: machine where
  "demo_saved =
     \<lparr>cpu = \<lparr>pc = 0x10074, fcsr = 1, reg = replicate 32 7, fl = replicate 32 9\<rparr>,
      arena = [1, 2, 3],
      pages = [(5, \<lparr>attr_read = True, attr_write = True, attr_exec = True\<rparr>),
               (6, \<lparr>attr_read = True, attr_write = True, attr_exec = False\<rparr>)],
      mmap_address = 0x2000,
      execute_segments = 1,
      g_exec_ctx = \<lparr>exec_base = 1, exec_rw_start = 2, exec_rw_end = 3, interp_base = 4,
                     interp_rw_start = 5, interp_rw_end = 6, interp_entry = 7,
                     original_stack_top = 8, heap_start = 9, heap_size = 10,
                     brk_base = 11, brk_current = 12, brk_overridden = True, dynamic = False\<rparr>,
      g_sched = [9, 8, 7, 6],
      g_next_pid = 3,
      g_next_epoll_fd = 1000,
      g_epoll_instances = [(4, [(0, (1, 42))])],
      g_eventfd_counters = [(7, 5)],
      g_waiting_for_stdin = False\<rparr>"

definition demo_target :: machine where
  "demo_target =
     \<lparr>cpu = \<lparr>pc = 0, fcsr = 0, reg = replicate 32 0, fl = replicate 32 0\<rparr>,
      arena = [0xFF, 0xFF, 0xFF],
      pages = [(5, \<lparr>attr_read = True, attr_write = True, attr_exec = False\<rparr>)],
      mmap_address = 0,
      execute_segments = 2,
      g_exec_ctx = \<lparr>exec_base = 0, exec_rw_start = 0, exec_rw_end = 0, interp_base = 0,
                     interp_rw_start = 0, interp_rw_end = 0, interp_entry = 0,
                     original_stack_top = 0, heap_start = 0, heap_size = 0,
                     brk_base = 0, brk_current = 0, brk_overridden = False, dynamic = True\<rparr>,
      g_sched = [0, 0, 0, 0],
      g_next_pid = 1,
      g_next_epoll_fd = 1,
      g_epoll_instances = [(2, [])],
      g_eventfd_counters = [],
      g_waiting_for_stdin = False\<rparr>"

text \<open>
  A saved machine with two executable pages, and a target that has an executable page the
  saved machine does not have.
\<close>

definition demo_saved_two :: machine where
  "demo_saved_two =
     demo_saved\<lparr>pages := [(5, \<lparr>attr_read = True, attr_write = True, attr_exec = True\<rparr>),
                          (6, \<lparr>attr_read = True, attr_write = True, attr_exec = False\<rparr>),
                          (9, \<lparr>attr_read = True, attr_write = False, attr_exec = True\<rparr>)]\<rparr>"

definition demo_target_exec :: machine where
  "demo_target_exec =
     demo_target\<lparr>pages := [(7, \<lparr>attr_read = True, attr_write = True, attr_exec = True\<rparr>)]\<rparr>"

section \<open>Byte codec lemmas\<close>

lemma length_le_bytes [simp]: "length (le_bytes n v) = n"
  by (induction n arbitrary: v) auto

lemma le_val_le_bytes: "le_val (le_bytes n v) = v mod 256 ^ n"
proof (induction n arbitrary: v)
  case 0 then show ?case by simp
next
  case (Suc n)
  have "unat (of_nat (v mod 256) :: byte) = v mod 256"
    by (simp add: unat_of_nat)
  then show ?case using Suc
    by (simp add: mod_mult2_eq)
qed

lemma le_val_bound: "le_val bs < 256 ^ length bs"
proof (induction bs)
  case Nil then show ?case by simp
next
  case (Cons b bs)
  have "unat b < 256" using unsigned_less [of b, where ?'a = nat] by simp
  with Cons show ?case by simp
qed

lemma le_bytes_le_val: "le_bytes (length bs) (le_val bs) = bs"
proof (induction bs)
  case Nil then show ?case by simp
next
  case (Cons b bs)
  have b: "unat b < 256" using unsigned_less [of b, where ?'a = nat] by simp
  then show ?case using Cons by simp
qed

lemma le_val_eq_0_iff: "le_val bs = 0 \<longleftrightarrow> (\<forall>b\<in>set bs. b = 0)"
  by (induction bs) (auto simp: unat_eq_zero)

lemma read_u64_emit: "read_u64 h (emit_u64 v @ rest) = Inr (v, rest)"
  unfolding read_u64_def emit_u64_def bounds_check_def remaining_def
  using unsigned_less [of v, where ?'a = nat] by (simp add: le_val_le_bytes)

lemma read_u32_emit: "read_u32 h (emit_u32 v @ rest) = Inr (v, rest)"
  unfolding read_u32_def emit_u32_def bounds_check_def remaining_def
  using unsigned_less [of v, where ?'a = nat] by (simp add: le_val_le_bytes)

lemma read_u8_emit: "read_u8 h (emit_u8 v @ rest) = Inr (v, rest)"
  unfolding read_u8_def emit_u8_def bounds_check_def remaining_def
  by (simp)

lemma read_i32_emit: "read_i32 h (emit_i32 v @ rest) = Inr (v, rest)"
  unfolding read_i32_def emit_i32_def bounds_check_def remaining_def
  using unsigned_less [of v, where ?'a = nat] by (simp add: le_val_le_bytes)

lemma length_emit_u64 [simp]: "length (emit_u64 v) = 8"
  by (simp add: emit_u64_def)

lemma read_into_append: "length bs = n \<Longrightarrow> read_into h n (bs @ rest) = Inr (bs, rest)"
  by (simp add: read_into_def bounds_check_def remaining_def)

lemma load_chunks_sentinel: "load_chunks h ar w (sentinel_record @ rest) = Inr (ar, w, rest)"
  by (subst load_chunks.simps)
     (simp add: sentinel_record_def remaining_def read_u64_emit)

lemma unat_of_nat_u64: "n < 2 ^ 64 \<Longrightarrow> unat (of_nat n :: u64) = n"
  by (simp add: unat_of_nat)

lemma of_nat_neq_sentinel: "n < 2 ^ 64 - 1 \<Longrightarrow> (of_nat n :: u64) \<noteq> SENTINEL_ADDR"
proof
  assume n: "n < 2 ^ 64 - 1" and eq: "(of_nat n :: u64) = SENTINEL_ADDR"
  from n have "unat (of_nat n :: u64) = n" by (simp add: unat_of_nat)
  moreover have "unat SENTINEL_ADDR = 2 ^ 64 - 1" by (simp add: SENTINEL_ADDR_def)
  ultimately show False using n eq by simp
qed

lemma load_chunks_emit_chunk:
  assumes "off + len \<le> length ar" "length ar < 2 ^ 64" "length payload = len" "0 < len"
  shows "load_chunks h ar w (emit_chunk off len payload @ rest)
         = load_chunks h (take off ar @ payload @ drop (off + len) ar) w rest"
proof -
  have off: "off < 2 ^ 64 - 1" and len: "len < 2 ^ 64" and sum: "off + len < 2 ^ 64"
    using assms by auto
  have uo: "unat (of_nat off :: u64) = off" using off by (simp add: unat_of_nat)
  have ul: "unat (of_nat len :: u64) = len" using len by (simp add: unat_of_nat)
  have us: "unat (of_nat off + of_nat len :: u64) = off + len"
    using sum by (simp add: unat_of_nat flip: of_nat_add)
  show ?thesis
    apply (subst load_chunks.simps)
    using assms
    apply (simp add: emit_chunk_def remaining_def read_u64_emit of_nat_neq_sentinel [OF off]
        uo ul us read_into_append)
    done
qed

section \<open>Arena codec lemmas\<close>

lemma all_set_take_drop:
  "(\<forall>b\<in>set (take m (drop k xs)). P b) \<longleftrightarrow> (\<forall>i. k \<le> i \<and> i < k + m \<and> i < length xs \<longrightarrow> P (xs ! i))"
proof
  assume L: "\<forall>b\<in>set (take m (drop k xs)). P b"
  show "\<forall>i. k \<le> i \<and> i < k + m \<and> i < length xs \<longrightarrow> P (xs ! i)"
  proof (intro allI impI)
    fix i assume i: "k \<le> i \<and> i < k + m \<and> i < length xs"
    then have "i - k < length (take m (drop k xs))" by auto
    then have "take m (drop k xs) ! (i - k) \<in> set (take m (drop k xs))" by (rule nth_mem)
    moreover have "take m (drop k xs) ! (i - k) = xs ! (k + (i - k))"
      using i by (subst nth_take) auto
    moreover have "k + (i - k) = i" using i by simp
    ultimately show "P (xs ! i)" using L by metis
  qed
next
  assume R: "\<forall>i. k \<le> i \<and> i < k + m \<and> i < length xs \<longrightarrow> P (xs ! i)"
  show "\<forall>b\<in>set (take m (drop k xs)). P b"
  proof
    fix b assume "b \<in> set (take m (drop k xs))"
    then obtain j where j: "j < length (take m (drop k xs))" and b: "b = take m (drop k xs) ! j"
      by (auto simp: in_set_conv_nth)
    from j have "k \<le> length xs" by (cases "k \<le> length xs") auto
    with j have "b = xs ! (k + j)" using b by simp
    moreover from j have "k \<le> k + j \<and> k + j < k + m \<and> k + j < length xs" by auto
    ultimately show "P b" using R by blast
  qed
qed

lemma of_nat_le_val_eq_0_iff:
  assumes "length bs \<le> 8"
  shows "(of_nat (le_val bs) :: u64) = 0 \<longleftrightarrow> (\<forall>b\<in>set bs. b = 0)"
proof -
  have "le_val bs < 256 ^ length bs" by (rule le_val_bound)
  also have "(256::nat) ^ length bs \<le> 256 ^ 8" using assms by (intro power_increasing) auto
  finally have lt: "le_val bs < 2 ^ 64" by simp
  then have "unat (of_nat (le_val bs) :: u64) = le_val bs" by (simp add: unat_of_nat)
  then have "(of_nat (le_val bs) :: u64) = 0 \<longleftrightarrow> le_val bs = 0"
    by (metis unat_eq_zero)
  then show ?thesis by (simp add: le_val_eq_0_iff)
qed

lemma qword_at_zero_iff:
  "qword_at ar offset q = 0 \<longleftrightarrow> (\<forall>b\<in>set (take 8 (drop (offset + 8 * q) ar)). b = 0)"
  unfolding qword_at_def by (rule of_nat_le_val_eq_0_iff) simp

lemma all_blocks_of_8:
  "(\<forall>q\<in>{0..<m}. \<forall>i. off + 8 * q \<le> i \<and> i < off + 8 * q + 8 \<and> i < (n::nat) \<longrightarrow> P i)
   \<longleftrightarrow> (\<forall>i. off \<le> i \<and> i < off + 8 * m \<and> i < n \<longrightarrow> P i)"
  (is "?L \<longleftrightarrow> ?R")
proof
  assume L: ?L
  show ?R
  proof (intro allI impI)
    fix i assume i: "off \<le> i \<and> i < off + 8 * m \<and> i < n"
    define d where "d = i - off"
    define q where "q = d div 8"
    have d: "d < m * 8" "i = off + d" using i by (auto simp: d_def)
    have "q < m" unfolding q_def using d(1) by (rule less_mult_imp_div_less)
    moreover have "d = 8 * q + d mod 8" by (simp add: q_def)
    moreover have "d mod 8 < 8" by simp
    ultimately have "q \<in> {0..<m}" "off + 8 * q \<le> i \<and> i < off + 8 * q + 8 \<and> i < n"
      using d(2) i by auto
    then show "P i" using L by blast
  qed
next
  assume R: ?R
  show ?L
  proof (intro ballI allI impI)
    fix q i assume "q \<in> {0..<m}"
    then have q: "Suc q \<le> m" by simp
    assume i: "off + 8 * q \<le> i \<and> i < off + 8 * q + 8 \<and> i < n"
    have "8 * Suc q \<le> 8 * m" using q by (rule mult_le_mono2)
    then have "off \<le> i \<and> i < off + 8 * m" using i by simp
    then show "P i" using R i by blast
  qed
qed

lemma chunk_all_zero_iff:
  "chunk_all_zero ar offset \<longleftrightarrow> (\<forall>b\<in>set (take CHUNK_SIZE (drop offset ar)). b = 0)"
proof -
  define m where "m = CHUNK_SIZE div 8"
  have C: "CHUNK_SIZE = 8 * m" by (simp add: m_def CHUNK_SIZE_def)
  have "chunk_all_zero ar offset \<longleftrightarrow>
        (\<forall>q\<in>{0..<m}. \<forall>i. offset + 8 * q \<le> i \<and> i < offset + 8 * q + 8 \<and> i < length ar
            \<longrightarrow> ar ! i = 0)"
    unfolding chunk_all_zero_def m_def [symmetric]
    by (simp add: list_all_iff qword_at_zero_iff all_set_take_drop)
  also have "\<dots> \<longleftrightarrow> (\<forall>i. offset \<le> i \<and> i < offset + 8 * m \<and> i < length ar \<longrightarrow> ar ! i = 0)"
    by (rule all_blocks_of_8)
  also have "\<dots> \<longleftrightarrow> (\<forall>b\<in>set (take (8 * m) (drop offset ar)). b = 0)"
    by (simp only: all_set_take_drop)
  finally show ?thesis unfolding C .
qed

lemma zero_bytes_replicate: "(\<forall>b\<in>set bs. b = (0::byte)) \<Longrightarrow> bs = replicate (length bs) 0"
  by (induction bs) auto

lemma save_chunks_all_zero:
  "(\<forall>b\<in>set ar. b = 0) \<Longrightarrow> save_chunks ar offset = []"
proof (induction ar offset rule: save_chunks.induct)
  case (1 ar offset)
  have z: "chunk_all_zero ar offset"
    unfolding chunk_all_zero_iff using "1.prems" by (meson in_set_dropD in_set_takeD)
  show ?case
    using 1 z by (subst save_chunks.simps) simp
qed

lemma save_tail_all_zero:
  "(\<forall>b\<in>set ar. b = 0) \<Longrightarrow> save_tail ar = []"
  unfolding save_tail_def Let_def list_all_iff
  by (auto dest: in_set_dropD in_set_takeD)

lemma load_chunks_save_chunks:
  assumes "length ar < 2 ^ 64"
  shows "load_chunks h (take offset ar @ replicate (length ar - offset) 0) w
            (save_chunks ar offset @ rest)
         = load_chunks h
            (take (offset + ((length ar - offset) div CHUNK_SIZE) * CHUNK_SIZE) ar
              @ replicate (length ar - (offset + ((length ar - offset) div CHUNK_SIZE) * CHUNK_SIZE)) 0)
            w rest"
  using assms
proof (induction ar offset arbitrary: rest rule: save_chunks.induct)
  case (1 ar offset)
  let ?n = "length ar"
  let ?C = "CHUNK_SIZE"
  have Cpos: "0 < ?C" by (simp add: CHUNK_SIZE_def)
  show ?case
  proof (cases "offset + ?C \<le> ?n")
    case False
    then have "?n - offset < ?C" using Cpos by arith
    then have "(?n - offset) div ?C = 0" by simp
    then show ?thesis using False by (subst save_chunks.simps) simp
  next
    case True
    have k: "offset + ?C + ((?n - (offset + ?C)) div ?C) * ?C = offset + ((?n - offset) div ?C) * ?C"
    proof -
      have "(?n - offset) = (?n - (offset + ?C)) + ?C" using True by simp
      then have "(?n - offset) div ?C = Suc ((?n - (offset + ?C)) div ?C)"
        using Cpos by (metis div_add_self2 less_numeral_extra(3) Suc_eq_plus1)
      then show ?thesis by simp
    qed
    have step: "load_chunks h (take offset ar @ replicate (?n - offset) 0) w
                  ((if chunk_all_zero ar offset then []
                    else emit_chunk offset ?C (take ?C (drop offset ar))) @ rest')
                = load_chunks h (take (offset + ?C) ar @ replicate (?n - (offset + ?C)) 0) w rest'"
      for rest'
    proof (cases "chunk_all_zero ar offset")
      case z: True
      then have "take ?C (drop offset ar) = replicate ?C 0"
        using zero_bytes_replicate [of "take ?C (drop offset ar)"] True
        by (simp add: chunk_all_zero_iff)
      then have "take (offset + ?C) ar = take offset ar @ replicate ?C 0"
        by (simp add: take_add)
      moreover have "replicate (?n - offset) (0::byte) = replicate ?C 0 @ replicate (?n - (offset + ?C)) 0"
        using True by (simp flip: replicate_add)
      ultimately show ?thesis using z by simp
    next
      case nz: False
      have "load_chunks h (take offset ar @ replicate (?n - offset) 0) w
              (emit_chunk offset ?C (take ?C (drop offset ar)) @ rest')
            = load_chunks h (take offset (take offset ar @ replicate (?n - offset) 0)
                 @ take ?C (drop offset ar)
                 @ drop (offset + ?C) (take offset ar @ replicate (?n - offset) 0)) w rest'"
        using True "1.prems" Cpos by (intro load_chunks_emit_chunk) auto
      moreover have "take offset (take offset ar @ replicate (?n - offset) 0) = take offset ar"
        using True by simp
      moreover have "drop (offset + ?C) (take offset ar @ replicate (?n - offset) 0)
                      = replicate (?n - (offset + ?C)) 0"
        using True by simp
      moreover have "take (offset + ?C) ar = take offset ar @ take ?C (drop offset ar)"
        by (simp add: take_add)
      ultimately show ?thesis using nz by simp
    qed
    have "load_chunks h (take offset ar @ replicate (?n - offset) 0) w (save_chunks ar offset @ rest)
          = load_chunks h (take offset ar @ replicate (?n - offset) 0) w
              ((if chunk_all_zero ar offset then []
                else emit_chunk offset ?C (take ?C (drop offset ar)))
               @ (save_chunks ar (offset + ?C) @ rest))"
      using True by (subst save_chunks.simps) simp
    also have "\<dots> = load_chunks h (take (offset + ?C) ar @ replicate (?n - (offset + ?C)) 0) w
                       (save_chunks ar (offset + ?C) @ rest)"
      by (rule step)
    also have "\<dots> = load_chunks h
            (take (offset + ?C + ((?n - (offset + ?C)) div ?C) * ?C) ar
              @ replicate (?n - (offset + ?C + ((?n - (offset + ?C)) div ?C) * ?C)) 0)
            w rest"
      using "1.IH" [OF True] "1.prems" by simp
    finally show ?thesis unfolding k .
  qed
qed

lemma CHUNK_SIZE_pos: "0 < CHUNK_SIZE"
  by (simp add: CHUNK_SIZE_def)

lemma tail_offset_le: "(n div CHUNK_SIZE) * CHUNK_SIZE \<le> n"
  by simp

lemma save_tail_zero:
  assumes "\<forall>b\<in>set (drop ((length ar div CHUNK_SIZE) * CHUNK_SIZE) ar). b = 0"
  shows "save_tail ar = []"
  using assms unfolding save_tail_def Let_def list_all_iff by simp

lemma save_tail_nonzero:
  assumes "\<exists>b\<in>set (drop ((length ar div CHUNK_SIZE) * CHUNK_SIZE) ar). b \<noteq> 0"
  shows "save_tail ar = emit_chunk ((length ar div CHUNK_SIZE) * CHUNK_SIZE) (length ar mod CHUNK_SIZE)
                          (drop ((length ar div CHUNK_SIZE) * CHUNK_SIZE) ar)"
proof -
  let ?k = "(length ar div CHUNK_SIZE) * CHUNK_SIZE"
  from assms have "drop ?k ar \<noteq> []" by auto
  then have lt: "?k < length ar" by simp
  have len: "length ar - ?k = length ar mod CHUNK_SIZE"
    by (simp add: minus_div_mult_eq_mod)
  show ?thesis
    using assms lt unfolding save_tail_def Let_def list_all_iff len [symmetric]
    by auto
qed

lemma load_chunks_save_tail:
  assumes "length ar < 2 ^ 64"
  shows "load_chunks h (take ((length ar div CHUNK_SIZE) * CHUNK_SIZE) ar
                       @ replicate (length ar - (length ar div CHUNK_SIZE) * CHUNK_SIZE) 0) w
            (save_tail ar @ rest)
         = load_chunks h ar w rest"
proof -
  let ?k = "(length ar div CHUNK_SIZE) * CHUNK_SIZE"
  let ?cur = "take ?k ar @ replicate (length ar - ?k) 0"
  have k: "?k \<le> length ar" by simp
  show ?thesis
  proof (cases "\<forall>b\<in>set (drop ?k ar). b = 0")
    case True
    then have "drop ?k ar = replicate (length ar - ?k) 0"
      using zero_bytes_replicate [of "drop ?k ar"] by simp
    then have "?cur = take ?k ar @ drop ?k ar" by simp
    then show ?thesis using save_tail_zero [OF True] by simp
  next
    case False
    then have nz: "\<exists>b\<in>set (drop ?k ar). b \<noteq> 0" by blast
    then have "drop ?k ar \<noteq> []" by auto
    then have lt: "?k < length ar" by simp
    have len: "length ar - ?k = length ar mod CHUNK_SIZE"
      by (simp add: minus_div_mult_eq_mod)
    have "load_chunks h ?cur w (emit_chunk ?k (length ar - ?k) (drop ?k ar) @ rest)
          = load_chunks h (take ?k ?cur @ drop ?k ar @ drop (?k + (length ar - ?k)) ?cur) w rest"
      using assms lt by (intro load_chunks_emit_chunk) auto
    moreover have "take ?k ?cur = take ?k ar" using k by simp
    moreover have "drop (?k + (length ar - ?k)) ?cur = []" using k by simp
    ultimately show ?thesis
      using save_tail_nonzero [OF nz] len by simp
  qed
qed

lemma load_arena_save_arena:
  assumes "length ar < 2 ^ 64" "length dest = length ar"
  shows "load_arena h dest (save_arena ar @ rest) = Inr (ar, [], rest)"
proof -
  let ?k = "(length ar div CHUNK_SIZE) * CHUNK_SIZE"
  have "load_arena h dest (save_arena ar @ rest)
        = load_chunks h (take 0 ar @ replicate (length ar - 0) 0) []
            (save_chunks ar 0 @ (save_tail ar @ sentinel_record @ rest))"
    using assms by (simp add: load_arena_def save_arena_def)
  also have "\<dots> = load_chunks h (take ?k ar @ replicate (length ar - ?k) 0) []
                      (save_tail ar @ sentinel_record @ rest)"
    using load_chunks_save_chunks [OF assms(1), where offset = 0 and w = "[]"] by simp
  also have "\<dots> = load_chunks h ar [] (sentinel_record @ rest)"
    by (rule load_chunks_save_tail [OF assms(1)])
  also have "\<dots> = Inr (ar, [], rest)"
    by (rule load_chunks_sentinel)
  finally show ?thesis .
qed

lemma le_bytes_numeral:
  "le_bytes (numeral k) v = of_nat (v mod 256) # le_bytes (pred_numeral k) (v div 256)"
proof -
  have "(numeral k :: nat) = Suc (pred_numeral k)" by (rule numeral_eq_Suc)
  then show ?thesis by (simp only: le_bytes.simps)
qed

lemma sentinel_record_bytes:
  "sentinel_record = [0xFF, 0xFF, 0xFF, 0xFF, 0xFF, 0xFF, 0xFF, 0xFF, 0, 0, 0, 0, 0, 0, 0, 0]"
  by (simp add: sentinel_record_def emit_u64_def SENTINEL_ADDR_def le_bytes_numeral)

lemma save_chunks_records:
  "save_chunks ar (j * CHUNK_SIZE)
   = concat (map (\<lambda>k. emit_chunk (k * CHUNK_SIZE) CHUNK_SIZE (take CHUNK_SIZE (drop (k * CHUNK_SIZE) ar)))
               (filter (\<lambda>k. \<not> chunk_all_zero ar (k * CHUNK_SIZE)) [j..<length ar div CHUNK_SIZE]))"
proof (induction "length ar div CHUNK_SIZE - j" arbitrary: j)
  case 0
  then have ge: "length ar div CHUNK_SIZE \<le> j" by simp
  have "length ar < (length ar div CHUNK_SIZE) * CHUNK_SIZE + CHUNK_SIZE"
    using dividend_less_div_times [OF CHUNK_SIZE_pos, of "length ar"] by simp
  also have "\<dots> \<le> j * CHUNK_SIZE + CHUNK_SIZE" using ge by simp
  finally have "\<not> j * CHUNK_SIZE + CHUNK_SIZE \<le> length ar" by simp
  then show ?case using ge by (subst save_chunks.simps) simp
next
  case (Suc d)
  then have lt: "j < length ar div CHUNK_SIZE" and d: "d = length ar div CHUNK_SIZE - Suc j" by auto
  have "Suc j * CHUNK_SIZE \<le> (length ar div CHUNK_SIZE) * CHUNK_SIZE"
    using lt by (intro mult_le_mono1) simp
  then have "Suc j * CHUNK_SIZE \<le> length ar"
    using tail_offset_le [of "length ar"] by (rule le_trans)
  then have le: "j * CHUNK_SIZE + CHUNK_SIZE \<le> length ar" by simp
  have up: "[j..<length ar div CHUNK_SIZE] = j # [Suc j..<length ar div CHUNK_SIZE]"
    using lt by (rule upt_conv_Cons)
  have IH: "save_chunks ar (j * CHUNK_SIZE + CHUNK_SIZE)
     = concat (map (\<lambda>k. emit_chunk (k * CHUNK_SIZE) CHUNK_SIZE (take CHUNK_SIZE (drop (k * CHUNK_SIZE) ar)))
               (filter (\<lambda>k. \<not> chunk_all_zero ar (k * CHUNK_SIZE)) [Suc j..<length ar div CHUNK_SIZE]))"
    using Suc.hyps(1) [OF d] by (simp add: add.commute)
  show ?case
    using le by (subst save_chunks.simps) (simp add: up IH)
qed

section \<open>Parsing what the writer emitted\<close>

lemma read_n_emit:
  assumes "\<And>v rest. rd (em v @ rest) = Inr (v, rest)"
  shows "read_n rd (length vs) (concat (map em vs) @ rest) = Inr (vs, rest)"
  using assms by (induction vs) auto

lemma read_n_emit':
  assumes "\<And>v rest. rd (em v @ rest) = Inr (v, rest)" "length vs = n"
  shows "read_n rd n (concat (map em vs) @ rest) = Inr (vs, rest)"
  using read_n_emit [OF assms(1)] assms(2) by blast

lemma read_header_save_header: "read_header h (save_header @ rest) = Inr rest"
proof -
  have "length MAGIC = 8" by (simp add: MAGIC_def)
  then have m: "read_into h 8 (MAGIC @ r) = Inr (MAGIC, r)" for r by (rule read_into_append)
  show ?thesis
    unfolding read_header_def save_header_def append_assoc
    by (simp only: m read_u32_emit sum.case prod.case if_False if_True simp_thms)
qed


lemma map_nth_upt: "length xs = n \<Longrightarrow> map (\<lambda>i. f (xs ! i)) [0..<n] = map f xs"
proof -
  assume n: "length xs = n"
  have "map f (map ((!) xs) [0..<length xs]) = map f xs" by (simp only: map_nth)
  then show ?thesis unfolding n by (simp add: comp_def)
qed

lemma save_cpu_eq:
  assumes "length (reg c) = 32" "length (fl c) = 32"
  shows "save_cpu c = emit_u64 (pc c) @ emit_u32 (fcsr c) @ emit_u32 0
     @ concat (map emit_u64 (reg c)) @ concat (map emit_u64 (fl c))"
  unfolding save_cpu_def map_nth_upt [OF assms(1), of emit_u64] map_nth_upt [OF assms(2), of emit_u64]
  by (rule refl)

lemma padding_eq: "concat (map (\<lambda>i. emit_u8 0) [0..<6]) = concat (map emit_u8 (replicate 6 0))"
proof -
  have "map (\<lambda>i. emit_u8 0) [0..<6] = replicate (length [0..<6::nat]) (emit_u8 0)"
    by (rule map_replicate_const)
  then show ?thesis by (simp add: map_replicate)
qed

lemma read_locals_emit:
  assumes "length rs = 32" "length fs = 32" "length padding = 6"
  shows "read_locals h (emit_u64 p @ emit_u32 f @ emit_u32 pad
           @ concat (map emit_u64 rs) @ concat (map emit_u64 fs)
           @ emit_u64 mm @ emit_u64 bb @ emit_u64 bc
           @ emit_u64 e1 @ emit_u64 e2 @ emit_u64 e3 @ emit_u64 e4 @ emit_u64 e5 @ emit_u64 e6
           @ emit_u64 e7 @ emit_u64 e8 @ emit_u64 e9 @ emit_u64 e10
           @ emit_u8 bo @ emit_u8 dy @ concat (map emit_u8 padding) @ rest)
         = Inr ((\<lparr>pc = p, fcsr = f, reg = rs, fl = fs\<rparr>, mm,
                  \<lparr>exec_base = e1, exec_rw_start = e2, exec_rw_end = e3, interp_base = e4,
                   interp_rw_start = e5, interp_rw_end = e6, interp_entry = e7,
                   original_stack_top = e8, heap_start = e9, heap_size = e10,
                   brk_base = bb, brk_current = bc,
                   brk_overridden = (bo \<noteq> 0), dynamic = (dy \<noteq> 0)\<rparr>), rest)"
proof -
  have rn64: "read_n (read_u64 h) 32 (concat (map emit_u64 vs) @ r) = Inr (vs, r)" if "length vs = 32" for vs r
    using read_n_emit' [of "read_u64 h" emit_u64, OF read_u64_emit that] .
  have rn8: "read_n (read_u8 h) 6 (concat (map emit_u8 vs) @ r) = Inr (vs, r)" if "length vs = 6" for vs r
    using read_n_emit' [of "read_u8 h" emit_u8, OF read_u8_emit that] .
  show ?thesis
    unfolding read_locals_def
    apply (simp only: read_u64_emit append_assoc bind_read_def sum.case prod.case)
    apply (simp only: read_u32_emit append_assoc bind_read_def sum.case prod.case)
    apply (simp only: rn64 [OF assms(1)] rn64 [OF assms(2)] append_assoc bind_read_def sum.case prod.case)
    apply (simp only: read_u64_emit append_assoc bind_read_def sum.case prod.case)
    apply (simp only: read_u8_emit append_assoc bind_read_def sum.case prod.case)
    apply (simp only: rn8 [OF assms(3)] append_assoc bind_read_def sum.case prod.case)
    done
qed

lemma read_locals_save:
  assumes "length (reg (cpu m)) = 32" "length (fl (cpu m)) = 32"
  shows "read_locals h (save_cpu (cpu m) @ save_memory_management m @ save_exec_ctx (g_exec_ctx m) @ rest)
         = Inr ((cpu m, mmap_address m, g_exec_ctx m), rest)"
proof -
  have c: "\<lparr>pc = pc (cpu m), fcsr = fcsr (cpu m), reg = reg (cpu m), fl = fl (cpu m)\<rparr> = cpu m"
    by simp
  have b: "((if b then 1 else 0 :: byte) \<noteq> 0) = b" for b by simp
  have e: "\<lparr>exec_base = exec_base e, exec_rw_start = exec_rw_start e, exec_rw_end = exec_rw_end e,
            interp_base = interp_base e, interp_rw_start = interp_rw_start e,
            interp_rw_end = interp_rw_end e, interp_entry = interp_entry e,
            original_stack_top = original_stack_top e, heap_start = heap_start e,
            heap_size = heap_size e, brk_base = brk_base e, brk_current = brk_current e,
            brk_overridden = ((if brk_overridden e then 1 else 0 :: byte) \<noteq> 0),
            dynamic = ((if dynamic e then 1 else 0 :: byte) \<noteq> 0)\<rparr> = e" for e :: ExecContext
    unfolding b by simp
  have six: "length (replicate 6 (0::byte)) = 6" by simp
  have "save_cpu (cpu m) @ save_memory_management m @ save_exec_ctx (g_exec_ctx m) @ rest
        = emit_u64 (pc (cpu m)) @ emit_u32 (fcsr (cpu m)) @ emit_u32 0
           @ concat (map emit_u64 (reg (cpu m))) @ concat (map emit_u64 (fl (cpu m)))
           @ emit_u64 (mmap_address m) @ emit_u64 (brk_base (g_exec_ctx m)) @ emit_u64 (brk_current (g_exec_ctx m))
           @ emit_u64 (exec_base (g_exec_ctx m)) @ emit_u64 (exec_rw_start (g_exec_ctx m))
           @ emit_u64 (exec_rw_end (g_exec_ctx m)) @ emit_u64 (interp_base (g_exec_ctx m))
           @ emit_u64 (interp_rw_start (g_exec_ctx m)) @ emit_u64 (interp_rw_end (g_exec_ctx m))
           @ emit_u64 (interp_entry (g_exec_ctx m)) @ emit_u64 (original_stack_top (g_exec_ctx m))
           @ emit_u64 (heap_start (g_exec_ctx m)) @ emit_u64 (heap_size (g_exec_ctx m))
           @ emit_u8 (if brk_overridden (g_exec_ctx m) then 1 else 0)
           @ emit_u8 (if dynamic (g_exec_ctx m) then 1 else 0)
           @ concat (map emit_u8 (replicate 6 0)) @ rest"
    unfolding save_cpu_eq [OF assms] save_memory_management_def save_exec_ctx_def padding_eq append_assoc
    by (rule refl)
  then show ?thesis
    using read_locals_emit [OF assms six] by (simp only: c e)
qed

lemma update_new_key: "k \<notin> fst ` set xs \<Longrightarrow> AList.update k v xs = xs @ [(k, v)]"
  by (induction xs) auto

lemma update_last_key: "k \<notin> fst ` set xs \<Longrightarrow> AList.update k v (xs @ [(k, u)]) = xs @ [(k, v)]"
  by (induction xs) auto

lemma load_interests_save:
  "distinct (map fst (acc @ xs)) \<Longrightarrow>
   load_interests h (length xs) acc (concat (map save_interest xs) @ rest) = Inr (acc @ xs, rest)"
proof (induction xs arbitrary: acc)
  case Nil
  then show ?case by simp
next
  case (Cons x xs)
  obtain fd ev d where x: "x = (fd, ev, d)" by (cases x) auto
  have new: "fd \<notin> fst ` set acc" using Cons.prems x by auto
  have d: "distinct (map fst ((acc @ [x]) @ xs))" using Cons.prems by simp
  show ?case
    using Cons.IH [OF d]
    by (simp add: x save_interest_def read_i32_emit read_u32_emit read_u64_emit update_new_key [OF new])
qed

lemma load_eventfd_counters_save:
  "distinct (map fst (acc @ xs)) \<Longrightarrow>
   load_eventfd_counters h (length xs) acc
      (concat (map (\<lambda>(fd, counter). emit_i32 fd @ emit_u64 counter) xs) @ rest) = Inr (acc @ xs, rest)"
proof (induction xs arbitrary: acc)
  case Nil
  then show ?case by simp
next
  case (Cons x xs)
  obtain fd c where x: "x = (fd, c)" by (cases x) auto
  have new: "fd \<notin> fst ` set acc" using Cons.prems x by auto
  have d: "distinct (map fst ((acc @ [x]) @ xs))" using Cons.prems by simp
  show ?case
    using Cons.IH [OF d]
    by (simp add: x read_i32_emit read_u64_emit update_new_key [OF new])
qed

lemma unat_of_nat_u32: "n < 2 ^ 32 \<Longrightarrow> unat (of_nat n :: u32) = n"
  by (simp add: unat_of_nat)

lemma load_epoll_instances_save:
  "distinct (map fst (acc @ xs)) \<Longrightarrow>
   list_all (\<lambda>(epfd, interests). distinct (map fst interests) \<and> length interests < 2 ^ 32) xs \<Longrightarrow>
   load_epoll_instances h (length xs) acc (concat (map save_epoll_instance xs) @ rest) = Inr (acc @ xs, rest)"
proof (induction xs arbitrary: acc)
  case Nil
  then show ?case by simp
next
  case (Cons x xs)
  obtain epfd ints where x: "x = (epfd, ints)" by (cases x) auto
  have new: "epfd \<notin> fst ` set acc" using Cons.prems(1) x by auto
  have d: "distinct (map fst ((acc @ [x]) @ xs))" using Cons.prems(1) by simp
  have di: "distinct (map fst ([] @ ints))" and li: "length ints < 2 ^ 32"
    using Cons.prems(2) x by auto
  have la: "list_all (\<lambda>(epfd, interests). distinct (map fst interests) \<and> length interests < 2 ^ 32) xs"
    using Cons.prems(2) by simp
  have sub: "subscript epfd [] acc = acc @ [(epfd, [])]"
    using new by (simp add: subscript_def)
  have at: "at_key epfd [] (acc @ [(epfd, [])]) = []"
  proof -
    have "map_of acc epfd = None" using new by (simp add: map_of_eq_None_iff)
    then show ?thesis by (simp add: at_key_def map_add_def)
  qed
  have inner: "load_interests h (unat (of_nat (length ints) :: u32)) [] (concat (map save_interest ints) @ r)
               = Inr (ints, r)" for r
    using load_interests_save [OF di, where rest = r and h = h] by (simp add: unat_of_nat_u32 [OF li])
  show ?case
    using Cons.IH [OF d la]
    by (simp add: x save_epoll_instance_def read_i32_emit read_u32_emit sub at inner
          update_last_key [OF new])
qed

lemma load_kernel_state_save:
  assumes "length (g_sched M) = length (g_sched S)"
    and "distinct (map fst (g_epoll_instances S))" "length (g_epoll_instances S) < 2 ^ 32"
    and "list_all (\<lambda>(epfd, interests). distinct (map fst interests) \<and> length interests < 2 ^ 32)
           (g_epoll_instances S)"
    and "distinct (map fst (g_eventfd_counters S))" "length (g_eventfd_counters S) < 2 ^ 32"
  shows "load_kernel_state M h (save_sched S @ save_epoll (g_epoll_instances S)
                                @ save_eventfd (g_eventfd_counters S) @ rest)
         = Inr (M\<lparr>g_sched := g_sched S, g_next_pid := g_next_pid S,
                   g_next_epoll_fd := g_next_epoll_fd S,
                   g_epoll_instances := g_epoll_instances S,
                   g_eventfd_counters := g_eventfd_counters S\<rparr>, rest)"
proof -
  have sched: "read_into h (length (g_sched M)) (g_sched S @ r) = Inr (g_sched S, r)" for r
    using assms(1) by (intro read_into_append) simp
  have ep: "load_epoll_instances h (unat (of_nat (length (g_epoll_instances S)) :: u32)) []
              (concat (map save_epoll_instance (g_epoll_instances S)) @ r) = Inr (g_epoll_instances S, r)" for r
    using load_epoll_instances_save [where acc = "[]" and xs = "g_epoll_instances S" and rest = r and h = h] assms(2,4)
    by (simp add: unat_of_nat_u32 [OF assms(3)])
  have ev: "load_eventfd_counters h (unat (of_nat (length (g_eventfd_counters S)) :: u32)) []
              (concat (map (\<lambda>(fd, counter). emit_i32 fd @ emit_u64 counter) (g_eventfd_counters S)) @ r)
            = Inr (g_eventfd_counters S, r)" for r
    using load_eventfd_counters_save [where acc = "[]" and xs = "g_eventfd_counters S" and rest = r and h = h] assms(5)
    by (simp add: unat_of_nat_u32 [OF assms(6)])
  show ?thesis
    unfolding load_kernel_state_def save_sched_def save_epoll_def save_eventfd_def append_assoc Let_def
    by (simp only: sched read_i32_emit read_u32_emit ep ev sum.case prod.case sum.case)
qed

lemma read_exec_page_list_save:
  assumes "length (exec_page_list pgs) < 2 ^ 64"
  shows "read_exec_page_list h (save_exec_pages pgs @ rest) = Inr (exec_page_list pgs, rest)"
proof -
  have "read_n (read_u64 h) (unat (of_nat (length (exec_page_list pgs)) :: u64))
          (concat (map emit_u64 (exec_page_list pgs)) @ rest) = Inr (exec_page_list pgs, rest)"
    using read_n_emit [of "read_u64 h" emit_u64, OF read_u64_emit] by (simp add: unat_of_nat_u64 [OF assms])
  then show ?thesis
    unfolding read_exec_page_list_def save_exec_pages_def Let_def append_assoc
    by (simp only: read_u64_emit sum.case prod.case)
qed

lemma load_checkpoint_prefix:
  assumes "well_formed S" "length (g_sched M) = length (g_sched S)"
  shows "load_checkpoint M h (checkpoint_prefix S @ stream) =
     (case load_arena h (arena M) stream of
        Inl (e, ar') \<Rightarrow>
          Inl (e, M\<lparr>g_sched := g_sched S, g_next_pid := g_next_pid S,
                    g_next_epoll_fd := g_next_epoll_fd S,
                    g_epoll_instances := g_epoll_instances S,
                    g_eventfd_counters := g_eventfd_counters S,
                    execute_segments := 0, arena := ar'\<rparr>)
      | Inr (ar', warned, r) \<Rightarrow>
          Inr (M\<lparr>g_sched := g_sched S, g_next_pid := g_next_pid S,
                 g_next_epoll_fd := g_next_epoll_fd S,
                 g_epoll_instances := g_epoll_instances S,
                 g_eventfd_counters := g_eventfd_counters S,
                 execute_segments := 0, arena := ar',
                 pages := restore_exec_pages (exec_page_list (pages S)) (pages M),
                 cpu := cpu S, mmap_address := mmap_address S,
                 g_exec_ctx := g_exec_ctx S, g_waiting_for_stdin := True\<rparr>))"
proof -
  have wf: "length (reg (cpu S)) = 32" "length (fl (cpu S)) = 32"
    "distinct (map fst (g_epoll_instances S))" "length (g_epoll_instances S) < 2 ^ 32"
    "list_all (\<lambda>(epfd, interests). distinct (map fst interests) \<and> length interests < 2 ^ 32)
           (g_epoll_instances S)"
    "distinct (map fst (g_eventfd_counters S))" "length (g_eventfd_counters S) < 2 ^ 32"
    "length (exec_page_list (pages S)) < 2 ^ 64"
    using assms(1) unfolding well_formed_def by blast+
  note ks = load_kernel_state_save [OF assms(2) wf(3,4,5,6,7)]
  show ?thesis
    unfolding load_checkpoint_def checkpoint_prefix_def append_assoc
    apply (simp only: read_header_save_header read_locals_save [OF wf(1,2)] ks
        read_exec_page_list_save [OF wf(8)] sum.case prod.case sum.case Let_def)
    apply (simp split: sum.split)
    done
qed

section \<open>Page permissions after a restore\<close>

lemma exec_page_list_update:
  "set (exec_page_list (AList.update k exec_attr pgs)) = insert k (set (exec_page_list pgs))"
proof (induction pgs)
  case Nil
  then show ?case by (simp add: exec_page_list_def exec_attr_def)
next
  case (Cons p pgs)
  obtain pn a where p: "p = (pn, a)" by (cases p) auto
  have c: "exec_page_list ((q, b) # ps) = (if attr_exec b then q # exec_page_list ps else exec_page_list ps)"
    for q b ps by (simp add: exec_page_list_def)
  have e: "attr_exec exec_attr" by (simp add: exec_attr_def)
  show ?case using Cons.IH by (auto simp: p c e)
qed

lemma exec_page_list_restore:
  "set (exec_page_list (restore_exec_pages eps pgs)) = set eps \<union> set (exec_page_list pgs)"
  unfolding restore_exec_pages_def set_pageno_attr_def
  by (induction eps arbitrary: pgs) (auto simp: exec_page_list_update)

lemma map_of_restore:
  "map_of (restore_exec_pages eps pgs) pn = (if pn \<in> set eps then Some exec_attr else map_of pgs pn)"
  unfolding restore_exec_pages_def set_pageno_attr_def
  by (induction eps arbitrary: pgs) (auto simp: update_conv')

lemma well_formed_demo_saved: "well_formed demo_saved"
  by (simp add: well_formed_def demo_saved_def exec_page_list_def)

section \<open>Failing and truncated loads\<close>

lemma load_chunks_short: "length r < 16 \<Longrightarrow> load_chunks h ar w r = Inr (ar, w, r)"
  by (subst load_chunks.simps) (simp add: remaining_def)

lemma load_chunks_skip:
  assumes "guest_addr \<noteq> SENTINEL_ADDR" "length ar < unat (guest_addr + len)" "length payload = unat len"
  shows "load_chunks h ar w (emit_u64 guest_addr @ emit_u64 len @ payload @ rest)
         = load_chunks h ar (w @ [(guest_addr, len)]) rest"
  using assms
  by (subst load_chunks.simps) (simp add: remaining_def read_u64_emit)

lemma load_kernel_state_keeps:
  "load_kernel_state M h r = Inl (e, M') \<Longrightarrow>
     cpu M' = cpu M \<and> pages M' = pages M \<and> mmap_address M' = mmap_address M
     \<and> g_exec_ctx M' = g_exec_ctx M \<and> arena M' = arena M"
  "load_kernel_state M h r = Inr (M', r') \<Longrightarrow>
     cpu M' = cpu M \<and> pages M' = pages M \<and> mmap_address M' = mmap_address M
     \<and> g_exec_ctx M' = g_exec_ctx M \<and> arena M' = arena M"
  unfolding load_kernel_state_def Let_def
  by (auto split: sum.splits prod.splits)

lemma load_checkpoint_failure_keeps:
  assumes "load_checkpoint M h data = Inl (e, M')"
  shows "cpu M' = cpu M \<and> pages M' = pages M \<and> mmap_address M' = mmap_address M
         \<and> g_exec_ctx M' = g_exec_ctx M"
  using assms unfolding load_checkpoint_def Let_def
  by (auto split: sum.splits prod.splits dest: load_kernel_state_keeps)

subsection \<open>What a successful read has consumed\<close>

lemma read_into_Inr:
  "read_into h n r = Inr (v, r') \<longleftrightarrow> n \<le> length r \<and> v = take n r \<and> r' = drop n r"
  by (auto simp: read_into_def bounds_check_def remaining_def)

lemma read_u64_Inr:
  "read_u64 h r = Inr (v, r') \<longleftrightarrow> 8 \<le> length r \<and> v = of_nat (le_val (take 8 r)) \<and> r' = drop 8 r"
  by (auto simp: read_u64_def bounds_check_def remaining_def)

lemma read_u32_Inr:
  "read_u32 h r = Inr (v, r') \<longleftrightarrow> 4 \<le> length r \<and> v = of_nat (le_val (take 4 r)) \<and> r' = drop 4 r"
  by (auto simp: read_u32_def bounds_check_def remaining_def)

lemma read_i32_Inr:
  "read_i32 h r = Inr (v, r') \<longleftrightarrow> 4 \<le> length r \<and> v = of_nat (le_val (take 4 r)) \<and> r' = drop 4 r"
  by (auto simp: read_i32_def bounds_check_def remaining_def)

lemma read_u8_Inr:
  "read_u8 h r = Inr (v, r') \<longleftrightarrow> 1 \<le> length r \<and> v = of_nat (le_val (take 1 r)) \<and> r' = drop 1 r"
  by (auto simp: read_u8_def bounds_check_def remaining_def)

lemma bind_read_Inr: "bind_read x f = Inr y \<longleftrightarrow> (\<exists>v. x = Inr v \<and> f v = Inr y)"
  by (cases x) (auto simp: bind_read_def)

lemma bind_read_Inl: "bind_read x f = Inl e \<longleftrightarrow> x = Inl e \<or> (\<exists>v. x = Inr v \<and> f v = Inl e)"
  by (cases x) (auto simp: bind_read_def)

lemma read_header_length: "read_header h r = Inr r' \<Longrightarrow> length r = length r' + 16"
  unfolding read_header_def
  by (auto simp: read_into_Inr read_u32_Inr split: sum.splits if_splits)

lemma read_u64_length: "read_u64 h r = Inr (v, r') \<Longrightarrow> length r = length r' + 8"
  by (auto simp: read_u64_Inr)

lemma read_u32_length: "read_u32 h r = Inr (v, r') \<Longrightarrow> length r = length r' + 4"
  by (auto simp: read_u32_Inr)

lemma read_u8_length: "read_u8 h r = Inr (v, r') \<Longrightarrow> length r = length r' + 1"
  by (auto simp: read_u8_Inr)

lemma read_n_length:
  assumes "\<And>r v r'. rd r = Inr (v, r') \<Longrightarrow> length r = length r' + k"
  shows "read_n rd n r = Inr (vs, r') \<Longrightarrow> length r = length r' + n * k"
proof (induction n arbitrary: r vs)
  case 0
  then show ?case by simp
next
  case (Suc n)
  from Suc.prems obtain v r1 vs' where a: "rd r = Inr (v, r1)" and b: "read_n rd n r1 = Inr (vs', r')"
    by (auto split: sum.splits)
  from assms [OF a] Suc.IH [OF b] show ?case by simp
qed

lemma read_regs_length: "read_n (read_u64 h) 32 r = Inr (vs, r') \<Longrightarrow> length r = length r' + 256"
  using read_n_length [of "read_u64 h" 8 32 r vs r', OF read_u64_length] by simp

lemma read_padding_length: "read_n (read_u8 h) 6 r = Inr (vs, r') \<Longrightarrow> length r = length r' + 6"
  using read_n_length [of "read_u8 h" 1 6 r vs r', OF read_u8_length] by simp

lemma read_locals_length:
  assumes "read_locals h r = Inr (x, r')"
  shows "length r = length r' + 640"
  using assms unfolding read_locals_def
  by (auto simp: bind_read_Inr
        dest!: read_u64_length read_u32_length read_u8_length read_regs_length read_padding_length)

lemma load_checkpoint_short:
  assumes "length data < 656"
  shows "\<exists>e. load_checkpoint M h data = Inl (e, M)"
proof (cases "read_header h data")
  case (Inl e)
  then show ?thesis by (simp add: load_checkpoint_def)
next
  case (Inr r)
  from read_header_length [OF Inr] assms have "length r < 640" by simp
  then obtain e where "read_locals h r = Inl e"
    using read_locals_length [of h r] by (cases "read_locals h r") auto
  then show ?thesis using Inr by (simp add: load_checkpoint_def)
qed

subsection \<open>A successful read succeeds on every extension of the stream\<close>

lemma read_into_ext: "read_into h n xs = Inr (v, r) \<Longrightarrow> read_into h n (xs @ ys) = Inr (v, r @ ys)"
  by (auto simp: read_into_Inr)

lemma read_u64_ext: "read_u64 h xs = Inr (v, r) \<Longrightarrow> read_u64 h (xs @ ys) = Inr (v, r @ ys)"
  by (auto simp: read_u64_Inr)

lemma read_u32_ext: "read_u32 h xs = Inr (v, r) \<Longrightarrow> read_u32 h (xs @ ys) = Inr (v, r @ ys)"
  by (auto simp: read_u32_Inr)

lemma read_i32_ext: "read_i32 h xs = Inr (v, r) \<Longrightarrow> read_i32 h (xs @ ys) = Inr (v, r @ ys)"
  by (auto simp: read_i32_Inr)

lemma read_u8_ext: "read_u8 h xs = Inr (v, r) \<Longrightarrow> read_u8 h (xs @ ys) = Inr (v, r @ ys)"
  by (auto simp: read_u8_Inr)

lemma read_n_ext:
  assumes "\<And>xs v r. rd xs = Inr (v, r) \<Longrightarrow> rd (xs @ ys) = Inr (v, r @ ys)"
  shows "read_n rd n xs = Inr (vs, r) \<Longrightarrow> read_n rd n (xs @ ys) = Inr (vs, r @ ys)"
proof (induction n arbitrary: xs vs)
  case 0
  then show ?case by simp
next
  case (Suc n)
  from Suc.prems obtain v r1 vs' where a: "rd xs = Inr (v, r1)"
    and b: "read_n rd n r1 = Inr (vs', r)" and c: "vs = v # vs'"
    by (auto split: sum.splits)
  from assms [OF a] Suc.IH [OF b] c show ?case by simp
qed

lemma read_u64s_ext:
  "read_n (read_u64 h) n xs = Inr (vs, r) \<Longrightarrow> read_n (read_u64 h) n (xs @ ys) = Inr (vs, r @ ys)"
  by (rule read_n_ext) (rule read_u64_ext)

lemma read_u8s_ext:
  "read_n (read_u8 h) n xs = Inr (vs, r) \<Longrightarrow> read_n (read_u8 h) n (xs @ ys) = Inr (vs, r @ ys)"
  by (rule read_n_ext) (rule read_u8_ext)

lemma bind_read_ext:
  assumes "bind_read (p r) (\<lambda>(v, r1). K v r1) = Inr (w, r')"
    and "\<And>v r1. p r = Inr (v, r1) \<Longrightarrow> p (r @ ys) = Inr (v, r1 @ ys)"
    and "\<And>v r1. K v r1 = Inr (w, r') \<Longrightarrow> K v (r1 @ ys) = Inr (w, r' @ ys)"
  shows "bind_read (p (r @ ys)) (\<lambda>(v, r1). K v r1) = Inr (w, r' @ ys)"
proof -
  from assms(1) obtain v r1 where a: "p r = Inr (v, r1)" and b: "K v r1 = Inr (w, r')"
    by (auto simp: bind_read_Inr)
  from assms(2) [OF a] assms(3) [OF b] show ?thesis by (simp add: bind_read_def)
qed

lemma read_locals_ext:
  "read_locals h xs = Inr (x, r) \<Longrightarrow> read_locals h (xs @ ys) = Inr (x, r @ ys)"
  unfolding read_locals_def
  apply (erule bind_read_ext, erule read_u64_ext)
  apply (erule bind_read_ext, erule read_u32_ext)
  apply (erule bind_read_ext, erule read_u32_ext)
  apply (erule bind_read_ext, erule read_u64s_ext)
  apply (erule bind_read_ext, erule read_u64s_ext)
  apply (erule bind_read_ext, erule read_u64_ext)
  apply (erule bind_read_ext, erule read_u64_ext)
  apply (erule bind_read_ext, erule read_u64_ext)
  apply (erule bind_read_ext, erule read_u64_ext)
  apply (erule bind_read_ext, erule read_u64_ext)
  apply (erule bind_read_ext, erule read_u64_ext)
  apply (erule bind_read_ext, erule read_u64_ext)
  apply (erule bind_read_ext, erule read_u64_ext)
  apply (erule bind_read_ext, erule read_u64_ext)
  apply (erule bind_read_ext, erule read_u64_ext)
  apply (erule bind_read_ext, erule read_u64_ext)
  apply (erule bind_read_ext, erule read_u64_ext)
  apply (erule bind_read_ext, erule read_u64_ext)
  apply (erule bind_read_ext, erule read_u8_ext)
  apply (erule bind_read_ext, erule read_u8_ext)
  apply (erule bind_read_ext, erule read_u8s_ext)
  apply simp
  done

lemma read_header_ext:
  "read_header h xs = Inr r \<Longrightarrow> read_header h (xs @ ys) = Inr (r @ ys)"
proof -
  assume a: "read_header h xs = Inr r"
  then obtain magic r1 version r2 flags where
    m: "read_into h 8 xs = Inr (magic, r1)" "magic = MAGIC"
    and v: "read_u32 h r1 = Inr (version, r2)" "version = VERSION"
    and f: "read_u32 h r2 = Inr (flags, r)"
    unfolding read_header_def by (auto split: sum.splits if_splits)
  from read_into_ext [OF m(1), of ys] read_u32_ext [OF v(1), of ys] read_u32_ext [OF f, of ys] m(2) v(2)
  show ?thesis unfolding read_header_def by simp
qed

lemma load_interests_ext:
  "load_interests h n acc xs = Inr (v, r) \<Longrightarrow> load_interests h n acc (xs @ ys) = Inr (v, r @ ys)"
proof (induction n arbitrary: acc xs)
  case 0
  then show ?case by simp
next
  case (Suc n)
  from Suc.prems obtain fd r1 ev r2 d r3 where a: "read_i32 h xs = Inr (fd, r1)"
    and b: "read_u32 h r1 = Inr (ev, r2)" and c: "read_u64 h r2 = Inr (d, r3)"
    and e: "load_interests h n (AList.update fd (ev, d) acc) r3 = Inr (v, r)"
    by (auto split: sum.splits)
  from read_i32_ext [OF a, of ys] read_u32_ext [OF b, of ys] read_u64_ext [OF c, of ys] Suc.IH [OF e]
  show ?case by simp
qed

lemma load_eventfd_counters_ext:
  "load_eventfd_counters h n acc xs = Inr (v, r) \<Longrightarrow>
   load_eventfd_counters h n acc (xs @ ys) = Inr (v, r @ ys)"
proof (induction n arbitrary: acc xs)
  case 0
  then show ?case by simp
next
  case (Suc n)
  from Suc.prems obtain fd r1 c r2 where a: "read_i32 h xs = Inr (fd, r1)"
    and b: "read_u64 h r1 = Inr (c, r2)"
    and e: "load_eventfd_counters h n (AList.update fd c acc) r2 = Inr (v, r)"
    by (auto split: sum.splits)
  from read_i32_ext [OF a, of ys] read_u64_ext [OF b, of ys] Suc.IH [OF e]
  show ?case by simp
qed

lemma load_epoll_instances_ext:
  "load_epoll_instances h n acc xs = Inr (v, r) \<Longrightarrow>
   load_epoll_instances h n acc (xs @ ys) = Inr (v, r @ ys)"
proof (induction n arbitrary: acc xs)
  case 0
  then show ?case by simp
next
  case (Suc n)
  from Suc.prems obtain epfd r1 num r2 inst r3 where a: "read_i32 h xs = Inr (epfd, r1)"
    and b: "read_u32 h r1 = Inr (num, r2)"
    and c: "load_interests h (unat num) (at_key epfd [] (subscript epfd [] acc)) r2 = Inr (inst, r3)"
    and e: "load_epoll_instances h n (AList.update epfd inst (subscript epfd [] acc)) r3 = Inr (v, r)"
    by (auto simp: Let_def split: sum.splits)
  from read_i32_ext [OF a, of ys] read_u32_ext [OF b, of ys] load_interests_ext [OF c, of ys]
    Suc.IH [OF e]
  show ?case by (simp add: Let_def)
qed

lemma load_kernel_state_ext:
  assumes "load_kernel_state M h xs = Inr (m, r)"
  shows "load_kernel_state M h (xs @ ys) = Inr (m, r @ ys)"
proof -
  from assms obtain sched r1 pid r2 efd r3 ne r4 insts r5 nv r6 cs where
    a: "read_into h (length (g_sched M)) xs = Inr (sched, r1)"
    and b: "read_i32 h r1 = Inr (pid, r2)"
    and c: "read_i32 h r2 = Inr (efd, r3)"
    and d: "read_u32 h r3 = Inr (ne, r4)"
    and e: "load_epoll_instances h (unat ne) [] r4 = Inr (insts, r5)"
    and f: "read_u32 h r5 = Inr (nv, r6)"
    and g: "load_eventfd_counters h (unat nv) [] r6 = Inr (cs, r)"
    and m: "m = M\<lparr>g_sched := sched, g_next_pid := pid, g_next_epoll_fd := efd,
                   g_epoll_instances := insts, g_eventfd_counters := cs\<rparr>"
    unfolding load_kernel_state_def Let_def
    by (auto split: sum.splits)
  from read_into_ext [OF a, of ys] read_i32_ext [OF b, of ys] read_i32_ext [OF c, of ys]
    read_u32_ext [OF d, of ys] load_epoll_instances_ext [OF e, of ys] read_u32_ext [OF f, of ys]
    load_eventfd_counters_ext [OF g, of ys] m
  show ?thesis
    unfolding load_kernel_state_def Let_def by simp
qed

lemma read_exec_page_list_ext:
  "read_exec_page_list h xs = Inr (v, r) \<Longrightarrow> read_exec_page_list h (xs @ ys) = Inr (v, r @ ys)"
proof -
  assume a: "read_exec_page_list h xs = Inr (v, r)"
  then obtain n r1 where b: "read_u64 h xs = Inr (n, r1)"
    and c: "read_n (read_u64 h) (unat n) r1 = Inr (v, r)"
    unfolding read_exec_page_list_def by (auto split: sum.splits)
  from read_u64_ext [OF b, of ys] read_u64s_ext [OF c, of ys]
  show ?thesis unfolding read_exec_page_list_def by simp
qed

lemma parse_prefix_ext:
  assumes "parse_prefix M h xs = Inr (loc, m, eps, r)"
  shows "parse_prefix M h (xs @ ys) = Inr (loc, m, eps, r @ ys)"
proof -
  from assms obtain r0 r1 r2 where
    a: "read_header h xs = Inr r0"
    and b: "read_locals h r0 = Inr (loc, r1)"
    and c: "load_kernel_state M h r1 = Inr (m, r2)"
    and d: "read_exec_page_list h r2 = Inr (eps, r)"
    unfolding parse_prefix_def by (auto split: sum.splits)
  from read_header_ext [OF a, of ys] read_locals_ext [OF b, of ys] load_kernel_state_ext [OF c, of ys]
    read_exec_page_list_ext [OF d, of ys]
  show ?thesis unfolding parse_prefix_def by simp
qed

subsection \<open>Which error a failing read reports\<close>

lemma read_into_Inl: "read_into h n r = Inl e \<Longrightarrow> n < h \<Longrightarrow> e = UnexpectedEOF"
  by (auto simp: read_into_def bounds_check_def split: if_splits)

lemma read_u64_Inl: "read_u64 h r = Inl e \<Longrightarrow> 8 < h \<Longrightarrow> e = UnexpectedEOF"
  by (auto simp: read_u64_def bounds_check_def split: if_splits)

lemma read_u32_Inl: "read_u32 h r = Inl e \<Longrightarrow> 8 < h \<Longrightarrow> e = UnexpectedEOF"
  by (auto simp: read_u32_def bounds_check_def split: if_splits)

lemma read_i32_Inl: "read_i32 h r = Inl e \<Longrightarrow> 8 < h \<Longrightarrow> e = UnexpectedEOF"
  by (auto simp: read_i32_def bounds_check_def split: if_splits)

lemma read_u8_Inl: "read_u8 h r = Inl e \<Longrightarrow> 8 < h \<Longrightarrow> e = UnexpectedEOF"
  by (auto simp: read_u8_def bounds_check_def split: if_splits)

lemma read_u64_Inl_iff: "8 < h \<Longrightarrow> read_u64 h r = Inl e \<longleftrightarrow> length r < 8 \<and> e = UnexpectedEOF"
  by (auto simp: read_u64_def bounds_check_def remaining_def split: if_splits)

lemma read_u32_Inl_iff: "8 < h \<Longrightarrow> read_u32 h r = Inl e \<longleftrightarrow> length r < 4 \<and> e = UnexpectedEOF"
  by (auto simp: read_u32_def bounds_check_def remaining_def split: if_splits)

lemma read_i32_Inl_iff: "8 < h \<Longrightarrow> read_i32 h r = Inl e \<longleftrightarrow> length r < 4 \<and> e = UnexpectedEOF"
  by (auto simp: read_i32_def bounds_check_def remaining_def split: if_splits)

lemma read_into_Inl_iff: "n < h \<Longrightarrow> read_into h n r = Inl e \<longleftrightarrow> length r < n \<and> e = UnexpectedEOF"
  by (auto simp: read_into_def bounds_check_def remaining_def split: if_splits)

lemma read_n_Inl:
  assumes "\<And>r e. rd r = Inl e \<Longrightarrow> e = UnexpectedEOF"
  shows "read_n rd n r = Inl e \<Longrightarrow> e = UnexpectedEOF"
proof (induction n arbitrary: r)
  case 0
  then show ?case by simp
next
  case (Suc n)
  show ?case
  proof (cases "rd r")
    case (Inl e')
    with Suc.prems assms show ?thesis by simp
  next
    case (Inr p)
    obtain v r1 where p: "p = (v, r1)" by (cases p)
    from Suc.prems Inr p have "read_n rd n r1 = Inl e"
      by (simp split: sum.splits prod.splits)
    then show ?thesis by (rule Suc.IH)
  qed
qed

lemma read_u64s_Inl: "read_n (read_u64 h) n r = Inl e \<Longrightarrow> 8 < h \<Longrightarrow> e = UnexpectedEOF"
  by (erule read_n_Inl [rotated]) (erule read_u64_Inl)

lemma read_u8s_Inl: "read_n (read_u8 h) n r = Inl e \<Longrightarrow> 8 < h \<Longrightarrow> e = UnexpectedEOF"
  by (erule read_n_Inl [rotated]) (erule read_u8_Inl)

lemma bind_read_InlE:
  assumes "bind_read p (\<lambda>(v, r). K v r) = Inl e"
    and "p = Inl e \<Longrightarrow> Q"
    and "\<And>v r. K v r = Inl e \<Longrightarrow> Q"
  shows Q
  using assms by (auto simp: bind_read_Inl)

lemma read_locals_Inl:
  assumes "read_locals h r = Inl e" "8 < h"
  shows "e = UnexpectedEOF"
  using assms(1) unfolding read_locals_def
  apply (elim bind_read_InlE)
  apply (erule read_u64_Inl read_u32_Inl read_u8_Inl read_u64s_Inl read_u8s_Inl, rule assms(2))+
  apply simp
  done

lemma read_header_Inl:
  assumes "read_header h xs = Inl e" "8 < h"
  shows "e = UnexpectedEOF \<or> read_header h (xs @ ys) = Inl e"
proof (cases "read_into h 8 xs")
  case (Inl e')
  with assms(1) have "e = e'" unfolding read_header_def by simp
  with Inl assms(2) show ?thesis by (auto dest: read_into_Inl)
next
  case (Inr p)
  obtain magic r1 where p: "read_into h 8 xs = Inr (magic, r1)" using Inr by (cases p) simp
  note p' = read_into_ext [OF p, of ys]
  show ?thesis
  proof (cases "magic = MAGIC")
    case False
    with assms(1) p p' show ?thesis unfolding read_header_def by simp
  next
    case True
    show ?thesis
    proof (cases "read_u32 h r1")
      case (Inl e')
      with assms(1) p True have "e = e'" unfolding read_header_def by simp
      with Inl assms(2) show ?thesis by (auto dest: read_u32_Inl)
    next
      case (Inr q)
      obtain version r2 where q: "read_u32 h r1 = Inr (version, r2)" using Inr by (cases q) simp
      note q' = read_u32_ext [OF q, of ys]
      show ?thesis
      proof (cases "version = VERSION")
        case False
        with assms(1) p p' q q' True show ?thesis unfolding read_header_def by simp
      next
        case v: True
        show ?thesis
        proof (cases "read_u32 h r2")
          case (Inl e')
          with assms(1) p q True v have "e = e'" unfolding read_header_def by simp
          with Inl assms(2) show ?thesis by (auto dest: read_u32_Inl)
        next
          case (Inr f)
          with assms(1) p q True v show ?thesis
            unfolding read_header_def by (simp split: prod.splits)
        qed
      qed
    qed
  qed
qed

lemma load_interests_Inl:
  "load_interests h n acc r = Inl (e, c) \<Longrightarrow> 8 < h \<Longrightarrow> e = UnexpectedEOF"
proof (induction n arbitrary: acc r)
  case 0
  then show ?case by simp
next
  case (Suc n)
  from Suc.prems(1) show ?case
    apply (auto simp: read_i32_Inl_iff [OF Suc.prems(2)] read_u32_Inl_iff [OF Suc.prems(2)]
          read_u64_Inl_iff [OF Suc.prems(2)]
        split: sum.splits)
    apply (erule Suc.IH, rule Suc.prems(2))
    done
qed

lemma load_eventfd_counters_Inl:
  "load_eventfd_counters h n acc r = Inl (e, c) \<Longrightarrow> 8 < h \<Longrightarrow> e = UnexpectedEOF"
proof (induction n arbitrary: acc r)
  case 0
  then show ?case by simp
next
  case (Suc n)
  from Suc.prems(1) show ?case
    apply (auto simp: read_i32_Inl_iff [OF Suc.prems(2)] read_u64_Inl_iff [OF Suc.prems(2)]
        split: sum.splits)
    apply (erule Suc.IH, rule Suc.prems(2))
    done
qed

lemma load_epoll_instances_Inl:
  "load_epoll_instances h n acc r = Inl (e, c) \<Longrightarrow> 8 < h \<Longrightarrow> e = UnexpectedEOF"
proof (induction n arbitrary: acc r)
  case 0
  then show ?case by simp
next
  case (Suc n)
  from Suc.prems(1) show ?case
    apply (auto simp: Let_def read_i32_Inl_iff [OF Suc.prems(2)] read_u32_Inl_iff [OF Suc.prems(2)]
        split: sum.splits)
     apply (erule load_interests_Inl, rule Suc.prems(2))
    apply (erule Suc.IH, rule Suc.prems(2))
    done
qed

lemma load_kernel_state_Inl:
  assumes "load_kernel_state M h r = Inl (e, m)" "8 < h" "length (g_sched M) < h"
  shows "e = UnexpectedEOF"
  using assms(1) unfolding load_kernel_state_def Let_def
  apply (auto simp: read_into_Inl_iff [OF assms(3)] read_i32_Inl_iff [OF assms(2)]
        read_u32_Inl_iff [OF assms(2)]
      split: sum.splits)
   apply (erule load_epoll_instances_Inl, rule assms(2))
  apply (erule load_eventfd_counters_Inl, rule assms(2))
  done

lemma read_exec_page_list_Inl:
  assumes "read_exec_page_list h r = Inl e" "8 < h"
  shows "e = UnexpectedEOF"
  using assms(1) unfolding read_exec_page_list_def
  apply (auto simp: read_u64_Inl_iff [OF assms(2)] split: sum.splits)
  apply (erule read_u64s_Inl, rule assms(2))
  done

lemma parse_prefix_keeps:
  assumes "parse_prefix M h xs = Inl (e, m)"
  shows "cpu m = cpu M \<and> pages m = pages M \<and> mmap_address m = mmap_address M
         \<and> g_exec_ctx m = g_exec_ctx M \<and> arena m = arena M"
  using assms unfolding parse_prefix_def
  by (auto split: sum.splits prod.splits dest: load_kernel_state_keeps)

lemma parse_prefix_Inl:
  assumes "parse_prefix M h xs = Inl (e, m)" "8 < h" "length (g_sched M) < h"
  shows "e = UnexpectedEOF \<or> (\<exists>m'. parse_prefix M h (xs @ ys) = Inl (e, m'))"
proof (cases "read_header h xs")
  case (Inl e')
  with assms(1) have "e = e'" unfolding parse_prefix_def by simp
  with Inl read_header_Inl [OF _ assms(2), of xs e ys] show ?thesis
    unfolding parse_prefix_def by auto
next
  case (Inr r0)
  with assms(1) have "e = UnexpectedEOF"
    unfolding parse_prefix_def
    apply (auto split: sum.splits dest: read_locals_Inl [OF _ assms(2)])
     apply (erule load_kernel_state_Inl, rule assms(2), rule assms(3))
    apply (erule read_exec_page_list_Inl, rule assms(2))
    done
  then show ?thesis by simp
qed

lemma parse_prefix_cut:
  assumes "parse_prefix M h P = Inr (loc, m, eps, [])" "k < length P"
    and "8 < h" "length (g_sched M) < h"
  shows "\<exists>m'. parse_prefix M h (take k P) = Inl (UnexpectedEOF, m')"
proof (cases "parse_prefix M h (take k P)")
  case (Inr p)
  obtain loc' m' eps' r' where p: "parse_prefix M h (take k P) = Inr (loc', m', eps', r')"
    using Inr by (cases p) auto
  from parse_prefix_ext [OF p, of "drop k P"] assms(1) have "r' @ drop k P = []" by simp
  with assms(2) show ?thesis by simp
next
  case (Inl p)
  obtain e m' where p: "parse_prefix M h (take k P) = Inl (e, m')" using Inl by (cases p) auto
  from parse_prefix_Inl [OF p assms(3,4), of "drop k P"] assms(1) have "e = UnexpectedEOF" by simp
  with p show ?thesis by blast
qed

lemma load_checkpoint_parse:
  "load_checkpoint M h data =
     (case parse_prefix M h data of Inl em \<Rightarrow> Inl em
      | Inr ((cpu', mmap_addr, ctx'), m1, exec_pages, r3) \<Rightarrow>
          (case load_arena h (arena m1) r3 of
             Inl (e, arena') \<Rightarrow> Inl (e, m1\<lparr>execute_segments := 0, arena := arena'\<rparr>)
           | Inr (arena', warned, r4) \<Rightarrow>
               Inr (m1\<lparr>execute_segments := 0, arena := arena',
                       pages := restore_exec_pages exec_pages (pages m1),
                       cpu := cpu',
                       mmap_address := mmap_addr,
                       g_exec_ctx := ctx',
                       g_waiting_for_stdin := True\<rparr>)))"
  unfolding load_checkpoint_def parse_prefix_def Let_def
  by (simp split: sum.splits prod.splits)

lemma parse_prefix_save:
  assumes "well_formed S" "length (g_sched M) = length (g_sched S)"
  shows "parse_prefix M h (checkpoint_prefix S @ stream) =
           Inr ((cpu S, mmap_address S, g_exec_ctx S),
                M\<lparr>g_sched := g_sched S, g_next_pid := g_next_pid S,
                   g_next_epoll_fd := g_next_epoll_fd S,
                   g_epoll_instances := g_epoll_instances S,
                   g_eventfd_counters := g_eventfd_counters S\<rparr>,
                exec_page_list (pages S), stream)"
proof -
  have wf: "length (reg (cpu S)) = 32" "length (fl (cpu S)) = 32"
    "distinct (map fst (g_epoll_instances S))" "length (g_epoll_instances S) < 2 ^ 32"
    "list_all (\<lambda>(epfd, interests). distinct (map fst interests) \<and> length interests < 2 ^ 32)
           (g_epoll_instances S)"
    "distinct (map fst (g_eventfd_counters S))" "length (g_eventfd_counters S) < 2 ^ 32"
    "length (exec_page_list (pages S)) < 2 ^ 64"
    using assms(1) unfolding well_formed_def by blast+
  note ks = load_kernel_state_save [OF assms(2) wf(3,4,5,6,7)]
  show ?thesis
    unfolding parse_prefix_def checkpoint_prefix_def append_assoc
    by (simp only: read_header_save_header read_locals_save [OF wf(1,2)] ks
        read_exec_page_list_save [OF wf(8)] sum.case prod.case)
qed

lemma load_checkpoint_cut_prefix:
  assumes "well_formed S" "length (g_sched M) = length (g_sched S)"
    and "8 < h" "length (g_sched M) < h" "k < length (checkpoint_prefix S)"
  shows "\<exists>M'. load_checkpoint M h (take k (save_checkpoint S)) = Inl (UnexpectedEOF, M')
              \<and> arena M' = arena M"
proof -
  from parse_prefix_save [OF assms(1,2), of h "[]"]
  have full: "parse_prefix M h (checkpoint_prefix S) =
           Inr ((cpu S, mmap_address S, g_exec_ctx S),
                M\<lparr>g_sched := g_sched S, g_next_pid := g_next_pid S,
                   g_next_epoll_fd := g_next_epoll_fd S,
                   g_epoll_instances := g_epoll_instances S,
                   g_eventfd_counters := g_eventfd_counters S\<rparr>,
                exec_page_list (pages S), [])"
    by simp
  from parse_prefix_cut [OF full assms(5,3,4)]
  obtain m' where p: "parse_prefix M h (take k (checkpoint_prefix S)) = Inl (UnexpectedEOF, m')"
    by blast
  from parse_prefix_keeps [OF p] have a: "arena m' = arena M" by simp
  have t: "take k (save_checkpoint S) = take k (checkpoint_prefix S)"
    using assms(5) by (simp add: save_checkpoint_def)
  show ?thesis
    unfolding t load_checkpoint_parse p using a by simp
qed

subsection \<open>The arena section as a list of records\<close>

lemma emit_u64_of_nat: "n < 2 ^ 64 \<Longrightarrow> emit_u64 (of_nat n) = le_bytes 8 n"
  by (simp add: emit_u64_def unat_of_nat_u64)

lemma emit_chunk_le_bytes:
  "off < 2 ^ 64 \<Longrightarrow> len < 2 ^ 64 \<Longrightarrow>
   emit_chunk off len payload = le_bytes 8 off @ le_bytes 8 len @ payload"
  by (simp add: emit_chunk_def emit_u64_of_nat)

lemma load_chunks_record:
  assumes "off + length pl \<le> length ar" "length ar < 2 ^ 64" "0 < length pl"
  shows "load_chunks h ar w (le_bytes 8 off @ le_bytes 8 (length pl) @ pl @ rest)
         = load_chunks h (take off ar @ pl @ drop (off + length pl) ar) w rest"
proof -
  have b: "off < 2 ^ 64" "length pl < 2 ^ 64" using assms by auto
  from load_chunks_emit_chunk [OF assms(1,2) refl assms(3), of h w rest]
  show ?thesis by (simp add: emit_chunk_le_bytes [OF b])
qed

lemma load_chunks_accepted:
  assumes "accepted_chunks (length ar) recs" "length ar < 2 ^ 64"
  shows "load_chunks h ar w (chunk_stream recs @ rest) = load_chunks h (apply_chunks ar recs) w rest"
  using assms
proof (induction recs arbitrary: ar)
  case Nil
  then show ?case by (simp add: chunk_stream_def apply_chunks_def)
next
  case (Cons p recs)
  obtain off pl where p: "p = (off, pl)" by (cases p)
  from Cons.prems(1) have a: "off + length pl \<le> length ar" "0 < length pl"
    and r: "accepted_chunks (length ar) recs"
    by (simp_all add: accepted_chunks_def p)
  let ?ar = "take off ar @ pl @ drop (off + length pl) ar"
  have l: "length ?ar = length ar" using a(1) by simp
  have "load_chunks h ar w (chunk_stream (p # recs) @ rest)
        = load_chunks h ar w (le_bytes 8 off @ le_bytes 8 (length pl) @ pl @ (chunk_stream recs @ rest))"
    by (simp add: chunk_stream_def p)
  also have "\<dots> = load_chunks h ?ar w (chunk_stream recs @ rest)"
    by (rule load_chunks_record [OF a(1) Cons.prems(2) a(2)])
  also have "\<dots> = load_chunks h (apply_chunks ?ar recs) w rest"
    using Cons.IH [of ?ar] r Cons.prems(2) by (simp only: l)
  finally show ?case by (simp add: apply_chunks_def p)
qed

lemma length_apply_chunks:
  "accepted_chunks (length ar) recs \<Longrightarrow> length (apply_chunks ar recs) = length ar"
proof (induction recs arbitrary: ar)
  case Nil
  then show ?case by (simp add: apply_chunks_def)
next
  case (Cons p recs)
  obtain off pl where p: "p = (off, pl)" by (cases p)
  from Cons.prems have a: "off + length pl \<le> length ar"
    and r: "accepted_chunks (length ar) recs"
    by (simp_all add: accepted_chunks_def p)
  let ?ar = "take off ar @ pl @ drop (off + length pl) ar"
  have l: "length ?ar = length ar" using a by simp
  from Cons.IH [of ?ar] r have "length (apply_chunks ?ar recs) = length ar" by (simp only: l)
  then show ?case by (simp add: apply_chunks_def p)
qed

lemma load_chunks_payload_cut:
  assumes "off + length pl \<le> length ar" "length ar < 2 ^ 64" "j < length pl" "length pl < h"
  shows "load_chunks h ar w (le_bytes 8 off @ le_bytes 8 (length pl) @ take j pl)
         = Inl (UnexpectedEOF, ar)"
proof -
  have off: "off < 2 ^ 64 - 1" and len: "length pl < 2 ^ 64" and sum: "off + length pl < 2 ^ 64"
    using assms by auto
  have uo: "unat (of_nat off :: u64) = off" using off by (simp add: unat_of_nat)
  have ul: "unat (of_nat (length pl) :: u64) = length pl" using len by (simp add: unat_of_nat)
  have us: "unat (of_nat off + of_nat (length pl) :: u64) = off + length pl"
    using sum by (simp add: unat_of_nat flip: of_nat_add)
  have e: "le_bytes 8 off = emit_u64 (of_nat off)" "le_bytes 8 (length pl) = emit_u64 (of_nat (length pl))"
    using off len by (simp_all add: emit_u64_of_nat)
  have m: "min (length pl) j = j" using assms(3) by simp
  show ?thesis
    apply (subst load_chunks.simps)
    using assms
    apply (simp add: e remaining_def read_u64_emit of_nat_neq_sentinel [OF off]
        uo ul us read_into_def bounds_check_def m)
    done
qed

lemma load_arena_accepted:
  assumes "accepted_chunks (length ar) recs" "length ar < 2 ^ 64" "length junk < 16"
  shows "load_arena h ar (chunk_stream recs @ junk)
         = Inr (apply_chunks (replicate (length ar) 0) recs, [], junk)"
proof -
  have "load_chunks h (replicate (length ar) 0) [] (chunk_stream recs @ junk)
        = load_chunks h (apply_chunks (replicate (length ar) 0) recs) [] junk"
    using assms by (intro load_chunks_accepted) simp_all
  also have "\<dots> = Inr (apply_chunks (replicate (length ar) 0) recs, [], junk)"
    by (rule load_chunks_short [OF assms(3)])
  finally show ?thesis by (simp add: load_arena_def)
qed

lemma load_arena_payload_cut:
  assumes "accepted_chunks (length ar) recs" "length ar < 2 ^ 64"
    and "off + length pl \<le> length ar" "j < length pl" "length pl < h"
  shows "load_arena h ar (chunk_stream recs @ le_bytes 8 off @ le_bytes 8 (length pl) @ take j pl)
         = Inl (UnexpectedEOF, apply_chunks (replicate (length ar) 0) recs)"
proof -
  let ?z = "replicate (length ar) (0 :: byte)"
  have a: "accepted_chunks (length ?z) recs" using assms(1) by simp
  have l: "length (apply_chunks ?z recs) = length ar"
    using length_apply_chunks [OF a] by simp
  have "load_chunks h ?z [] (chunk_stream recs @ le_bytes 8 off @ le_bytes 8 (length pl) @ take j pl)
        = load_chunks h (apply_chunks ?z recs) [] (le_bytes 8 off @ le_bytes 8 (length pl) @ take j pl)"
    using assms by (intro load_chunks_accepted) simp_all
  also have "\<dots> = Inl (UnexpectedEOF, apply_chunks ?z recs)"
    using assms by (intro load_chunks_payload_cut) (simp_all add: l)
  finally show ?thesis by (simp add: load_arena_def)
qed

subsection \<open>The length of what precedes the arena section\<close>

lemma length_concat_const:
  "(\<And>x. x \<in> set xs \<Longrightarrow> length (f x) = c) \<Longrightarrow> length (concat (map f xs)) = c * length xs"
  by (induction xs) simp_all

lemma length_fixed_fields:
  "length (save_header @ save_cpu c @ save_memory_management m @ save_exec_ctx e) = 656"
proof -
  have "length save_header = 16"
    by (simp add: save_header_def MAGIC_def emit_u32_def)
  moreover have "length (save_cpu c) = 528"
    by (simp add: save_cpu_def emit_u32_def length_concat_const [where c = 8])
  moreover have "length (save_memory_management m) = 24"
    by (simp add: save_memory_management_def)
  moreover have "length (save_exec_ctx e) = 88"
    by (simp add: save_exec_ctx_def emit_u8_def length_concat_const [where c = 1])
  ultimately show ?thesis by simp
qed

lemma length_checkpoint_prefix:
  "length (checkpoint_prefix S)
     = 656 + length (g_sched S) + 8 + length (save_epoll (g_epoll_instances S))
       + length (save_eventfd (g_eventfd_counters S)) + length (save_exec_pages (pages S))"
proof -
  have "checkpoint_prefix S
        = (save_header @ save_cpu (cpu S) @ save_memory_management S @ save_exec_ctx (g_exec_ctx S))
          @ save_sched S @ save_epoll (g_epoll_instances S) @ save_eventfd (g_eventfd_counters S)
          @ save_exec_pages (pages S)"
    by (simp add: checkpoint_prefix_def)
  then have "length (checkpoint_prefix S)
        = length (save_header @ save_cpu (cpu S) @ save_memory_management S @ save_exec_ctx (g_exec_ctx S))
          + length (save_sched S @ save_epoll (g_epoll_instances S) @ save_eventfd (g_eventfd_counters S)
          @ save_exec_pages (pages S))"
    by (simp only: length_append)
  then show ?thesis
    unfolding length_fixed_fields by (simp add: save_sched_def emit_i32_def)
qed

subsection \<open>Executable pages as a property of the page table\<close>

lemma exec_page_list_iff:
  "distinct (map fst pgs) \<Longrightarrow> pn \<in> set (exec_page_list pgs) \<longleftrightarrow> is_executable pgs pn"
proof (induction pgs)
  case Nil
  then show ?case by (simp add: exec_page_list_def is_executable_def)
next
  case (Cons p pgs)
  obtain q a where p: "p = (q, a)" by (cases p)
  from Cons.prems have d: "distinct (map fst pgs)" and q: "q \<notin> fst ` set pgs" by (simp_all add: p)
  have n: "q \<notin> set (exec_page_list pgs)" using q by (auto simp: exec_page_list_def)
  have c: "exec_page_list ((q, a) # pgs) = (if attr_exec a then q # exec_page_list pgs else exec_page_list pgs)"
    by (simp add: exec_page_list_def)
  have i: "is_executable ((q, a) # pgs) pn = (if pn = q then attr_exec a else is_executable pgs pn)"
    by (simp add: is_executable_def)
  show ?case using Cons.IH [OF d] n by (auto simp: p c i)
qed

lemma is_executable_restore:
  "is_executable (restore_exec_pages eps pgs) pn \<longleftrightarrow> pn \<in> set eps \<or> is_executable pgs pn"
  by (simp add: is_executable_def map_of_restore exec_attr_def)

subsection \<open>Eight-byte values\<close>

lemma le_bytes_mod: "le_bytes k (n mod 256 ^ k) = le_bytes k n"
proof (induction k arbitrary: n)
  case 0
  then show ?case by simp
next
  case (Suc k)
  have a: "n mod (256 * 256 ^ k) mod 256 = n mod 256"
    by (simp add: mod_mod_cancel)
  have b: "n mod (256 * 256 ^ k) div 256 = n div 256 mod 256 ^ k"
    by (simp add: mod_mult2_eq)
  show ?case by (simp add: a b Suc.IH)
qed

lemma emit_u64_le_bytes: "emit_u64 (of_nat n) = le_bytes 8 n"
proof -
  have "unat (of_nat n :: u64) = n mod 256 ^ 8" by (simp add: unat_of_nat)
  then show ?thesis unfolding emit_u64_def by (simp only: le_bytes_mod)
qed

lemma le_bytes_8_values:
  "le_bytes 8 0 = [0, 0, 0, 0, 0, 0, 0, 0]"
  "le_bytes 8 2 = [2, 0, 0, 0, 0, 0, 0, 0]"
  "le_bytes 8 3 = [3, 0, 0, 0, 0, 0, 0, 0]"
  "le_bytes 8 65536 = [0, 0, 1, 0, 0, 0, 0, 0]"
  "le_bytes 8 (Suc 0) = [1, 0, 0, 0, 0, 0, 0, 0]"
  by (simp_all add: le_bytes_numeral)

section \<open>Records outside the arena\<close>

lemma oversize_chunk_skipped:
  assumes "guest_addr \<noteq> SENTINEL_ADDR" "length ar < unat (guest_addr + len)" "length payload = unat len"
    and "load_chunks h ar (w @ [(guest_addr, len)]) rest = Inr (ar', w', r')"
  shows "load_chunks h ar w (emit_u64 guest_addr @ emit_u64 len @ payload @ rest) = Inr (ar', w', r')"
  using load_chunks_skip [OF assms(1,2,3)] assms(4) by simp

lemma truncated_payload_reparsed:
  "load_arena h [0, 0, 0] (emit_u64 100 @ emit_u64 1000 @ emit_u64 0 @ emit_u64 3 @ [7, 7, 7])
     = Inr ([7, 7, 7], [(100, 1000)], [])"
proof -
  have "load_chunks h [0, 0, 0] [] (emit_u64 100 @ emit_u64 1000 @ emit_u64 0 @ emit_u64 3 @ [7, 7, 7])
        = load_chunks h [0, 0, 0] [(100, 1000)] (emit_u64 0 @ emit_u64 3 @ [7, 7, 7])"
    by (subst load_chunks.simps)
       (simp add: remaining_def read_u64_emit SENTINEL_ADDR_def)
  also have "\<dots> = load_chunks h [7, 7, 7] [(100, 1000)] []"
    by (subst load_chunks.simps)
       (simp add: remaining_def read_u64_emit read_into_def bounds_check_def SENTINEL_ADDR_def)
  also have "\<dots> = Inr ([7, 7, 7], [(100, 1000)], [])"
    by (rule load_chunks_short) simp
  finally show ?thesis
    by (simp add: load_arena_def numeral_eq_Suc)
qed

text \<open>
  A record whose length is \<open>2 ^ 64 - 1\<close> passes the test of line 357 when the wrapped sum
  lies in the arena, and then the test of \<open>read_into\<close> as well: \<open>p + len\<close> wraps for every
  reader position \<open>p \<ge> 1\<close>, that is, whenever \<open>remaining + headroom \<le> 2 ^ 64 - 1\<close>. No
  exception is thrown and \<open>memcpy\<close> reads beyond the blob.
\<close>

lemma wrapped_read_not_rejected:
  assumes "0 < h" "length rest + h \<le> 2 ^ 64 - 1"
  shows "load_chunks h [0, 0, 0] w (emit_u64 2 @ emit_u64 0xFFFFFFFFFFFFFFFF @ rest)
         = Inl (BlobOverrun, [0, 0, 0])"
  using assms
  by (subst load_chunks.simps)
     (simp add: remaining_def read_u64_emit read_into_def bounds_check_def SENTINEL_ADDR_def)

section \<open>Streams without a sentinel\<close>

lemma save_arena_small:
  assumes "length ar < CHUNK_SIZE" "\<exists>b\<in>set ar. b \<noteq> 0"
  shows "save_arena ar = emit_chunk 0 (length ar) ar @ sentinel_record"
proof -
  have d: "length ar div CHUNK_SIZE = 0" "length ar mod CHUNK_SIZE = length ar"
    using assms(1) by simp_all
  have "save_chunks ar 0 = []"
    using assms(1) by (subst save_chunks.simps) simp
  moreover have "save_tail ar = emit_chunk 0 (length ar) ar"
    using save_tail_nonzero [of ar] assms(2) by (simp add: d)
  ultimately show ?thesis by (simp add: save_arena_def)
qed

lemma save_arena_demo_saved:
  "save_arena (arena demo_saved) = emit_chunk 0 3 [1, 2, 3] @ sentinel_record"
proof -
  have l: "length [1, 2, 3 :: byte] = 3" by simp
  have "length [1, 2, 3 :: byte] < CHUNK_SIZE" "\<exists>b\<in>set [1, 2, 3 :: byte]. b \<noteq> 0"
    by (simp_all add: CHUNK_SIZE_def)
  from save_arena_small [OF this] show ?thesis
    unfolding l by (simp add: demo_saved_def)
qed

lemma load_arena_no_sentinel:
  assumes "length ar < 2 ^ 64" "length dest = length ar" "length junk < 16"
  shows "load_arena h dest (save_chunks ar 0 @ save_tail ar @ junk) = Inr (ar, [], junk)"
proof -
  let ?k = "(length ar div CHUNK_SIZE) * CHUNK_SIZE"
  have "load_arena h dest (save_chunks ar 0 @ save_tail ar @ junk)
        = load_chunks h (take 0 ar @ replicate (length ar - 0) 0) []
            (save_chunks ar 0 @ (save_tail ar @ junk))"
    using assms by (simp add: load_arena_def)
  also have "\<dots> = load_chunks h (take ?k ar @ replicate (length ar - ?k) 0) [] (save_tail ar @ junk)"
    using load_chunks_save_chunks [OF assms(1), where offset = 0 and w = "[]" and h = h] by simp
  also have "\<dots> = load_chunks h ar [] junk"
    by (rule load_chunks_save_tail [OF assms(1)])
  also have "\<dots> = Inr (ar, [], junk)"
    by (rule load_chunks_short [OF assms(3)])
  finally show ?thesis .
qed

lemma load_truncated_after_sched:
  assumes "length (reg (cpu S)) = 32" "length (fl (cpu S)) = 32" "length (g_sched M) = length (g_sched S)"
    and "4 < h"
  shows "load_checkpoint M h (save_header @ save_cpu (cpu S) @ save_memory_management S
                               @ save_exec_ctx (g_exec_ctx S) @ g_sched S)
         = Inl (UnexpectedEOF, M\<lparr>g_sched := g_sched S\<rparr>)"
proof -
  have k: "load_kernel_state M h (g_sched S) = Inl (UnexpectedEOF, M\<lparr>g_sched := g_sched S\<rparr>)"
    using assms(3,4)
    by (simp add: load_kernel_state_def read_into_def read_i32_def bounds_check_def remaining_def)
  have l: "read_locals h (save_cpu (cpu S) @ save_memory_management S @ save_exec_ctx (g_exec_ctx S) @ g_sched S)
           = Inr ((cpu S, mmap_address S, g_exec_ctx S), g_sched S)"
    by (rule read_locals_save [OF assms(1,2)])
  show ?thesis
    unfolding load_checkpoint_def
    by (simp only: read_header_save_header l k option.case prod.case sum.case)
qed

section \<open>The two copy loops\<close>

lemma copy_forward_result:
  "d \<le> s \<Longrightarrow> copy_forward mem d s i n a
     = (if d + i \<le> a \<and> a < d + n then mem (s + (a - d)) else mem a)"
proof (induction mem d s i n rule: copy_forward.induct)
  case (1 mem d s i n)
  show ?case
  proof (cases "i < n")
    case False
    then show ?thesis by (subst copy_forward.simps) auto
  next
    case True
    have "copy_forward mem d s i n a = copy_forward (mem(d + i := mem (s + i))) d s (i + 1) n a"
      using True by (subst copy_forward.simps) simp
    also have "\<dots> = (if d + (i + 1) \<le> a \<and> a < d + n
                         then (mem(d + i := mem (s + i))) (s + (a - d))
                         else (mem(d + i := mem (s + i))) a)"
      using "1.IH" [OF True "1.prems"] .
    also have "\<dots> = (if d + i \<le> a \<and> a < d + n then mem (s + (a - d)) else mem a)"
      using True "1.prems" by auto
    finally show ?thesis .
  qed
qed

lemma copy_backward_result:
  "s \<le> d \<Longrightarrow> copy_backward mem d s i a
     = (if d \<le> a \<and> a < d + i then mem (s + (a - d)) else mem a)"
proof (induction mem d s i rule: copy_backward.induct)
  case (1 mem d s i)
  show ?case
  proof (cases "i > 0")
    case False
    then show ?thesis by (subst copy_backward.simps) auto
  next
    case True
    have "copy_backward mem d s i a
          = copy_backward (mem(d + (i - 1) := mem (s + (i - 1)))) d s (i - 1) a"
      using True by (subst copy_backward.simps) simp
    also have "\<dots> = (if d \<le> a \<and> a < d + (i - 1)
                         then (mem(d + (i - 1) := mem (s + (i - 1)))) (s + (a - d))
                         else (mem(d + (i - 1) := mem (s + (i - 1)))) a)"
      using "1.IH" [OF True "1.prems"] .
    also have "\<dots> = (if d \<le> a \<and> a < d + i then mem (s + (a - d)) else mem a)"
      using True "1.prems" by auto
    finally show ?thesis .
  qed
qed

section \<open>Outcome of each hypercall handler\<close>

lemma returns_not_thrown [simp]: "returns m res \<noteq> Inl e"
  by (simp add: returns_def)

lemma returns_result:
  "returns m res = Inr m' \<Longrightarrow> regs m' 10 = fst res \<and> only_result_written m m'"
  by (auto simp: returns_def set_result_def only_result_written_def)

lemma storage_band_outcome:
  assumes "primitives_return env r" "sint r < 0"
    and "h = handler_600 em env \<or> h = handler_601 em env \<or> h = handler_602 em env
         \<or> h = handler_603 em env \<or> h = handler_604 em env"
  shows "case h m of Inl e \<Rightarrow> thrown_by_libriscv env e
         | Inr m' \<Rightarrow> only_result_written m m' \<and> sint (regs m' 10) < 0"
proof -
  have p: "fst (js_opfs_io env mem fd buf len op off) = r" for mem fd buf len op off
    using assms(1) by (simp add: primitives_return_def)
  have o: "sint (fst (opfs_io em env mem fd buf len op off)) < 0" for mem fd buf len op off
    using assms(2) by (simp add: opfs_io_def p)
  show ?thesis
    using assms(3) o
    by (auto simp: handler_600_def handler_601_def handler_602_def handler_603_def handler_604_def
          Let_def bind_exn_def thrown_by_libriscv_def
          split: sum.splits dest!: returns_result)
qed

lemma compute_band_outcome:
  assumes "primitives_return env r" "sint r < 0"
    and "h = handler_700 em env \<or> h = handler_705 em env \<or> h = handler_706 em env
         \<or> h = handler_708 em env"
  shows "case h m of Inl e \<Rightarrow> thrown_by_libriscv env e
         | Inr m' \<Rightarrow> only_result_written m m' \<and> sint (regs m' 10) < 0"
proof -
  have p: "fst (js_compute_offload env mem op p1 l1 p2 l2) = r" for mem op p1 l1 p2 l2
    using assms(1) by (simp add: primitives_return_def)
  have o: "sint (fst (compute_offload em env mem op p1 l1 p2 l2)) < 0" for mem op p1 l1 p2 l2
    using assms(2) by (simp add: compute_offload_def p)
  show ?thesis
    using assms(3) o
    by (auto simp: handler_700_def handler_705_def handler_706_def handler_708_def
          Let_def bind_exn_def thrown_by_libriscv_def
          split: sum.splits dest!: returns_result)
qed

lemma network_rw_outcome:
  assumes "primitives_return env r" "sint r < 0"
    and "h = handler_802 em env \<or> h = handler_803 em env"
  shows "case h m of Inl e \<Rightarrow> thrown_by_libriscv env e
         | Inr m' \<Rightarrow> only_result_written m m' \<and> sint (regs m' 10) < 0"
proof -
  have p: "fst (js_net_proxy env mem fd ip port op buf len) = r" for mem fd ip port op buf len
    using assms(1) by (simp add: primitives_return_def)
  have o: "sint (fst (net_proxy em env mem fd ip port op buf len)) < 0" for mem fd ip port op buf len
    using assms(2) by (simp add: net_proxy_def p)
  show ?thesis
    using assms(3) o
    by (auto simp: handler_802_def handler_803_def
          Let_def bind_exn_def thrown_by_libriscv_def
          split: sum.splits dest!: returns_result)
qed

lemma connect_outcome:
  assumes "primitives_return env r" "sint r < 0"
  shows "case handler_800 em env m of Inl e \<Rightarrow> thrown_by_libriscv env e
         | Inr m' \<Rightarrow> only_result_written m m' \<and> sint (regs m' 10) < 0"
proof -
  have p: "fst (js_net_proxy env mem fd ip port op buf len) = r" for mem fd ip port op buf len
    using assms(1) by (simp add: primitives_return_def)
  show ?thesis
    using assms(2)
    by (auto simp: handler_800_def Let_def bind_exn_def thrown_by_libriscv_def p
          split: sum.splits prod.splits dest!: returns_result)
qed

lemma getaddrinfo_outcome:
  assumes "primitives_return env r" "sint r < 0"
  shows "case handler_801 em env m of Inl e \<Rightarrow> thrown_by_libriscv env e
         | Inr m' \<Rightarrow> only_result_written m m' \<and> sint (regs m' 10) < 0"
proof -
  have p: "fst (js_dns_resolve env mem host host_len port) = r" for mem host host_len port
    using assms(1) by (simp add: primitives_return_def)
  have nz: "r \<noteq> 0" using assms(2) by auto
  show ?thesis
  proof (cases em)
    case False
    then show ?thesis
      by (auto simp: handler_801_def split: sum.splits dest!: returns_result)
  next
    case True
    show ?thesis
    proof (cases "memstring env (memory m) (sysarg m 0)")
      case (Inl e)
      then show ?thesis using True
        by (auto simp: handler_801_def bind_exn_def thrown_by_libriscv_def)
    next
      case (Inr node)
      obtain ret ip_buf where d: "js_dns_resolve env (memory m) node (of_nat (length node)) 0 = (ret, ip_buf)"
        by (cases "js_dns_resolve env (memory m) node (of_nat (length node)) 0") auto
      from p [of "memory m" node "of_nat (length node)" 0] d have ret: "ret = r" by simp
      show ?thesis
        using True Inr d ret nz assms(2)
        by (auto simp: handler_801_def bind_exn_def split: sum.splits dest!: returns_result)
    qed
  qed
qed

lemma memmove_outcome:
  "case handler_703 em env m of Inl e \<Rightarrow> thrown_by_libriscv env e
   | Inr m' \<Rightarrow> only_result_written m m' \<and> regs m' 10 = sysarg m 0"
  by (auto simp: handler_703_def Let_def bind_exn_def thrown_by_libriscv_def
        split: sum.splits dest!: returns_result)

lemma gettimeofday_outcome:
  "case handler_704 em env m of Inl e \<Rightarrow> thrown_by_libriscv env e
   | Inr m' \<Rightarrow> only_result_written m m' \<and> regs m' 10 = 0"
  by (auto simp: handler_704_def Let_def bind_exn_def thrown_by_libriscv_def
        split: sum.splits dest!: returns_result)

lemma primitives_return_failing_env: "primitives_return failing_env (- 1)"
  by (simp add: primitives_return_def failing_env_def)

section \<open>C1: round trip\<close>

lemma load_save_checkpoint:
  assumes "well_formed S" "length (arena M) = length (arena S)" "length (g_sched M) = length (g_sched S)"
  shows "load_checkpoint M h (save_checkpoint S) =
          Inr (M\<lparr>g_sched := g_sched S, g_next_pid := g_next_pid S,
                 g_next_epoll_fd := g_next_epoll_fd S,
                 g_epoll_instances := g_epoll_instances S,
                 g_eventfd_counters := g_eventfd_counters S,
                 execute_segments := 0, arena := arena S,
                 pages := restore_exec_pages (exec_page_list (pages S)) (pages M),
                 cpu := cpu S, mmap_address := mmap_address S,
                 g_exec_ctx := g_exec_ctx S, g_waiting_for_stdin := True\<rparr>)"
proof -
  have len: "length (arena S) < 2 ^ 64"
    using assms(1) unfolding well_formed_def by blast
  have ar: "load_arena h (arena M) (save_arena (arena S)) = Inr (arena S, [], [])"
    using load_arena_save_arena [OF len assms(2), where rest = "[]" and h = h] by simp
  show ?thesis
    unfolding save_checkpoint_def load_checkpoint_prefix [OF assms(1,3)] ar by simp
qed

lemma well_formed_demo_saved_two: "well_formed demo_saved_two"
  by (simp add: well_formed_def demo_saved_two_def demo_saved_def exec_page_list_def)

text \<open>
  Claim C1, as amended. Let \<open>S\<close> be a well-formed machine state (its page table, a map, has
  one entry per page number) and \<open>M\<close> the machine that receives the checkpoint, of the same
  build (same arena size, same \<open>sizeof(g_sched)\<close>). Then \<open>load_checkpoint\<close> applied to
  \<open>save_checkpoint S\<close> returns normally, wherever the blob lies, and the restored machine
  has the CPU state of \<open>S\<close> (pc, fcsr, both register files), its mmap address, its exec
  context, its scheduler block, its next-pid and next-epoll-fd counters, its
  epoll-instance and eventfd mappings (as maps) and every byte of its arena. A page is
  executable afterwards exactly when it was executable in \<open>S\<close> or was executable in \<open>M\<close>
  before the call: the loop of lines 375-377 gives the saved pages read and execute
  permission and takes no permission away from any other page.
\<close>

theorem checkpoint_round_trip:
  assumes "well_formed S"
    and "distinct (map fst (pages S))"
    and "length (arena M) = length (arena S)"
    and "length (g_sched M) = length (g_sched S)"
  shows "\<exists>M'. load_checkpoint M h (save_checkpoint S) = Inr M'
           \<and> cpu M' = cpu S
           \<and> mmap_address M' = mmap_address S
           \<and> g_exec_ctx M' = g_exec_ctx S
           \<and> g_sched M' = g_sched S
           \<and> g_next_pid M' = g_next_pid S
           \<and> g_next_epoll_fd M' = g_next_epoll_fd S
           \<and> epoll_map (g_epoll_instances M') = epoll_map (g_epoll_instances S)
           \<and> map_of (g_eventfd_counters M') = map_of (g_eventfd_counters S)
           \<and> (\<forall>pn. is_executable (pages M') pn
                    \<longleftrightarrow> is_executable (pages S) pn \<or> is_executable (pages M) pn)
           \<and> arena M' = arena S"
  unfolding load_save_checkpoint [OF assms(1,3,4)]
  by (simp add: is_executable_restore exec_page_list_iff [OF assms(2)])

theorem checkpoint_round_trip_witness:
  "well_formed demo_saved_two
   \<and> distinct (map fst (pages demo_saved_two))
   \<and> length (arena demo_target_exec) = length (arena demo_saved_two)
   \<and> length (g_sched demo_target_exec) = length (g_sched demo_saved_two)
   \<and> (\<exists>M'. load_checkpoint demo_target_exec (2 ^ 63) (save_checkpoint demo_saved_two) = Inr M'
           \<and> pc (cpu M') = 0x10074 \<and> fcsr (cpu M') = 1
           \<and> reg (cpu M') = replicate 32 7 \<and> fl (cpu M') = replicate 32 9
           \<and> mmap_address M' = 0x2000
           \<and> heap_size (g_exec_ctx M') = 10 \<and> brk_overridden (g_exec_ctx M')
           \<and> g_sched M' = [9, 8, 7, 6]
           \<and> g_next_pid M' = 3
           \<and> g_next_epoll_fd M' = 1000
           \<and> epoll_map (g_epoll_instances M') = epoll_map [(4, [(0, (1, 42))])]
           \<and> map_of (g_eventfd_counters M') = map_of [(7, 5)]
           \<and> is_executable (pages M') 5 \<and> \<not> is_executable (pages M') 6
           \<and> is_executable (pages M') 7 \<and> is_executable (pages M') 9
           \<and> arena M' = [1, 2, 3])"
proof -
  have h1: "well_formed demo_saved_two" by (rule well_formed_demo_saved_two)
  have h2: "distinct (map fst (pages demo_saved_two))"
    by (simp add: demo_saved_two_def)
  have h3: "length (arena demo_target_exec) = length (arena demo_saved_two)"
    by (simp add: demo_saved_two_def demo_saved_def demo_target_exec_def demo_target_def)
  have h4: "length (g_sched demo_target_exec) = length (g_sched demo_saved_two)"
    by (simp add: demo_saved_two_def demo_saved_def demo_target_exec_def demo_target_def)
  obtain M' where M': "load_checkpoint demo_target_exec (2 ^ 63) (save_checkpoint demo_saved_two) = Inr M'"
    and s: "cpu M' = cpu demo_saved_two" "mmap_address M' = mmap_address demo_saved_two"
      "g_exec_ctx M' = g_exec_ctx demo_saved_two" "g_sched M' = g_sched demo_saved_two"
      "g_next_pid M' = g_next_pid demo_saved_two" "g_next_epoll_fd M' = g_next_epoll_fd demo_saved_two"
      "epoll_map (g_epoll_instances M') = epoll_map (g_epoll_instances demo_saved_two)"
      "map_of (g_eventfd_counters M') = map_of (g_eventfd_counters demo_saved_two)"
      "arena M' = arena demo_saved_two"
    and x: "\<And>pn. is_executable (pages M') pn
                    \<longleftrightarrow> is_executable (pages demo_saved_two) pn \<or> is_executable (pages demo_target_exec) pn"
    using checkpoint_round_trip [OF h1 h2 h3 h4, of "2 ^ 63"] by blast
  have v: "pc (cpu M') = 0x10074" "fcsr (cpu M') = 1"
    "reg (cpu M') = replicate 32 7" "fl (cpu M') = replicate 32 9"
    "mmap_address M' = 0x2000"
    "heap_size (g_exec_ctx M') = 10" "brk_overridden (g_exec_ctx M')"
    "g_sched M' = [9, 8, 7, 6]" "g_next_pid M' = 3" "g_next_epoll_fd M' = 1000"
    "epoll_map (g_epoll_instances M') = epoll_map [(4, [(0, (1, 42))])]"
    "map_of (g_eventfd_counters M') = map_of [(7, 5)]"
    "arena M' = [1, 2, 3]"
    unfolding s by (simp_all add: demo_saved_two_def demo_saved_def)
  have e: "is_executable (pages M') 5" "\<not> is_executable (pages M') 6"
    "is_executable (pages M') 7" "is_executable (pages M') 9"
    unfolding x
    by (simp_all add: is_executable_def demo_saved_two_def demo_target_exec_def)
  from h1 h2 h3 h4 M' v e show ?thesis by blast
qed

text \<open>
  Claim C1 as stated fails for the set of executable pages. The target \<open>demo_target_exec\<close>
  has the same arena and scheduler sizes as \<open>demo_saved\<close> and one executable page, number
  7, which is not a page of \<open>demo_saved\<close>. Loading the checkpoint of \<open>demo_saved\<close> into it
  returns normally, wherever the blob lies, and page 7 is still executable: the executable
  pages are then 5 and 7, where those of \<open>demo_saved\<close> are 5 alone.
\<close>

theorem round_trip_keeps_target_exec_page:
  "(\<forall>h. \<exists>M'. load_checkpoint demo_target_exec h (save_checkpoint demo_saved) = Inr M'
            \<and> is_executable (pages M') 5 \<and> is_executable (pages M') 7)
   \<and> is_executable (pages demo_saved) 5
   \<and> \<not> is_executable (pages demo_saved) 7
   \<and> map_of (pages demo_saved) 7 = None
   \<and> well_formed demo_saved
   \<and> length (arena demo_target_exec) = length (arena demo_saved)
   \<and> length (g_sched demo_target_exec) = length (g_sched demo_saved)"
proof -
  have h3: "length (arena demo_target_exec) = length (arena demo_saved)"
    by (simp add: demo_saved_def demo_target_exec_def demo_target_def)
  have h4: "length (g_sched demo_target_exec) = length (g_sched demo_saved)"
    by (simp add: demo_saved_def demo_target_exec_def demo_target_def)
  have l: "exec_page_list (pages demo_saved) = [5]"
    by (simp add: demo_saved_def exec_page_list_def)
  have a: "\<exists>M'. load_checkpoint demo_target_exec h (save_checkpoint demo_saved) = Inr M'
            \<and> is_executable (pages M') 5 \<and> is_executable (pages M') 7" for h
    unfolding load_save_checkpoint [OF well_formed_demo_saved h3 h4]
    by (simp add: is_executable_restore l) (simp add: is_executable_def demo_target_exec_def)
  have b: "is_executable (pages demo_saved) 5" "\<not> is_executable (pages demo_saved) 7"
    "map_of (pages demo_saved) 7 = None"
    by (simp_all add: is_executable_def demo_saved_def)
  from a b well_formed_demo_saved h3 h4 show ?thesis by blast
qed

section \<open>C2: a stream that ends early\<close>

text \<open>
  Claim C2, as amended. \<open>h\<close> is the number of bytes between the end of the blob and the
  top of the address space.
  \<^enum> A stream shorter than the 656 bytes of header, CPU state, memory-management and
    exec-context fields makes \<open>load_checkpoint\<close> throw with the machine untouched.
  \<^enum> Whenever \<open>load_checkpoint\<close> throws, the CPU state, the page attributes, the mmap
    address and the exec context are those of before the call; the scheduler block, the
    counters, the mappings and the arena are written as they are read and may have changed.
  \<^enum> When \<open>h\<close> is more than 8 and more than \<open>sizeof(g_sched)\<close>, the checkpoint of a
    well-formed machine cut anywhere before its arena section (in the header, the fixed
    fields, the scheduler block, the counters, the epoll or eventfd mapping or the
    executable-page list) makes \<open>load_checkpoint\<close> throw \<open>unexpected EOF\<close>; the arena has not
    been touched.
  \<^enum> In the arena section, after any records that the loop accepts, a record that lies
    within the arena, whose header is complete, whose length is less than \<open>h\<close> and whose
    payload is cut short makes \<open>load_checkpoint\<close> throw \<open>unexpected EOF\<close>; the arena has by
    then been zeroed and holds the records read so far.
  \<^enum> A stream that ends in the arena section with fewer than 16 bytes left where a record
    header is expected ends the chunk loop, and the load completes normally without a
    sentinel, the arena holding the records read.
  \<^enum> In particular the checkpoint of a well-formed machine with its sentinel cut off (and
    up to 15 stray bytes in its place) loads normally and restores the arena.
\<close>

theorem truncation_behaviour:
  "(length data < 656 \<longrightarrow> (\<exists>e. load_checkpoint M h data = Inl (e, M)))
   \<and> (\<forall>e M'. load_checkpoint M h data = Inl (e, M') \<longrightarrow>
         cpu M' = cpu M \<and> pages M' = pages M \<and> mmap_address M' = mmap_address M
         \<and> g_exec_ctx M' = g_exec_ctx M)
   \<and> (well_formed S \<and> length (g_sched M) = length (g_sched S)
        \<and> 8 < h \<and> length (g_sched M) < h \<and> k < length (checkpoint_prefix S) \<longrightarrow>
         (\<exists>M'. load_checkpoint M h (take k (save_checkpoint S)) = Inl (UnexpectedEOF, M')
               \<and> arena M' = arena M))
   \<and> (well_formed S \<and> length (g_sched M) = length (g_sched S) \<and> length (arena M) < 2 ^ 64
        \<and> accepted_chunks (length (arena M)) recs
        \<and> off + length pl \<le> length (arena M) \<and> j < length pl \<and> length pl < h \<longrightarrow>
         (\<exists>M'. load_checkpoint M h
                  (checkpoint_prefix S @ chunk_stream recs
                     @ le_bytes 8 off @ le_bytes 8 (length pl) @ take j pl) = Inl (UnexpectedEOF, M')
               \<and> arena M' = apply_chunks (replicate (length (arena M)) 0) recs))
   \<and> (well_formed S \<and> length (g_sched M) = length (g_sched S) \<and> length (arena M) < 2 ^ 64
        \<and> accepted_chunks (length (arena M)) recs \<and> length junk < 16 \<longrightarrow>
         (\<exists>M'. load_checkpoint M h (checkpoint_prefix S @ chunk_stream recs @ junk) = Inr M'
               \<and> arena M' = apply_chunks (replicate (length (arena M)) 0) recs))
   \<and> (well_formed S \<and> length (arena M) = length (arena S)
        \<and> length (g_sched M) = length (g_sched S) \<and> length junk < 16 \<longrightarrow>
         (\<exists>M'. load_checkpoint M h
                  (checkpoint_prefix S @ save_chunks (arena S) 0 @ save_tail (arena S) @ junk) = Inr M'
               \<and> arena M' = arena S))"
proof -
  have 1: "length data < 656 \<longrightarrow> (\<exists>e. load_checkpoint M h data = Inl (e, M))"
    using load_checkpoint_short [of data M h] by blast
  have 2: "\<forall>e M'. load_checkpoint M h data = Inl (e, M') \<longrightarrow>
         cpu M' = cpu M \<and> pages M' = pages M \<and> mmap_address M' = mmap_address M
         \<and> g_exec_ctx M' = g_exec_ctx M"
    using load_checkpoint_failure_keeps [of M h data] by blast
  have 3: "\<exists>M'. load_checkpoint M h (take k (save_checkpoint S)) = Inl (UnexpectedEOF, M')
               \<and> arena M' = arena M"
    if "well_formed S" "length (g_sched M) = length (g_sched S)"
      "8 < h" "length (g_sched M) < h" "k < length (checkpoint_prefix S)"
    using that by (rule load_checkpoint_cut_prefix)
  have 4: "\<exists>M'. load_checkpoint M h
                  (checkpoint_prefix S @ chunk_stream recs
                     @ le_bytes 8 off @ le_bytes 8 (length pl) @ take j pl) = Inl (UnexpectedEOF, M')
               \<and> arena M' = apply_chunks (replicate (length (arena M)) 0) recs"
    if wf: "well_formed S" and sc: "length (g_sched M) = length (g_sched S)"
      and len: "length (arena M) < 2 ^ 64" and ac: "accepted_chunks (length (arena M)) recs"
      and o: "off + length pl \<le> length (arena M)" and j: "j < length pl" and p: "length pl < h"
  proof -
    have la: "load_arena h (arena M)
                (chunk_stream recs @ le_bytes 8 off @ le_bytes 8 (length pl) @ take j pl)
              = Inl (UnexpectedEOF, apply_chunks (replicate (length (arena M)) 0) recs)"
      by (rule load_arena_payload_cut [OF ac len o j p])
    show ?thesis
      unfolding load_checkpoint_prefix [OF wf sc] la by simp
  qed
  have 5: "\<exists>M'. load_checkpoint M h (checkpoint_prefix S @ chunk_stream recs @ junk) = Inr M'
               \<and> arena M' = apply_chunks (replicate (length (arena M)) 0) recs"
    if wf: "well_formed S" and sc: "length (g_sched M) = length (g_sched S)"
      and len: "length (arena M) < 2 ^ 64" and ac: "accepted_chunks (length (arena M)) recs"
      and j: "length junk < 16"
  proof -
    have la: "load_arena h (arena M) (chunk_stream recs @ junk)
              = Inr (apply_chunks (replicate (length (arena M)) 0) recs, [], junk)"
      by (rule load_arena_accepted [OF ac len j])
    show ?thesis
      unfolding load_checkpoint_prefix [OF wf sc] la by simp
  qed
  have 6: "\<exists>M'. load_checkpoint M h
                  (checkpoint_prefix S @ save_chunks (arena S) 0 @ save_tail (arena S) @ junk) = Inr M'
               \<and> arena M' = arena S"
    if wf: "well_formed S" and ar: "length (arena M) = length (arena S)"
      and sc: "length (g_sched M) = length (g_sched S)" and j: "length junk < 16"
  proof -
    have len: "length (arena S) < 2 ^ 64" using wf unfolding well_formed_def by blast
    have la: "load_arena h (arena M) (save_chunks (arena S) 0 @ save_tail (arena S) @ junk)
              = Inr (arena S, [], junk)"
      by (rule load_arena_no_sentinel [OF len ar j])
    show ?thesis
      unfolding load_checkpoint_prefix [OF wf sc] la by simp
  qed
  from 1 2 3 4 5 6 show ?thesis by blast
qed

theorem truncation_behaviour_witness:
  "(\<exists>e. load_checkpoint demo_target (2 ^ 63) [] = Inl (e, demo_target))
   \<and> (\<exists>M'. load_checkpoint demo_target (2 ^ 63) (take 660 (save_checkpoint demo_saved))
             = Inl (UnexpectedEOF, M')
           \<and> arena M' = [0xFF, 0xFF, 0xFF]
           \<and> cpu M' = cpu demo_target \<and> pages M' = pages demo_target
           \<and> mmap_address M' = mmap_address demo_target \<and> g_exec_ctx M' = g_exec_ctx demo_target)
   \<and> (\<exists>M'. load_checkpoint demo_target (2 ^ 63)
               (checkpoint_prefix demo_saved
                  @ [1, 0, 0, 0, 0, 0, 0, 0, 1, 0, 0, 0, 0, 0, 0, 0, 7]
                  @ [0, 0, 0, 0, 0, 0, 0, 0, 2, 0, 0, 0, 0, 0, 0, 0, 4])
             = Inl (UnexpectedEOF, M')
           \<and> arena M' = [0, 7, 0])
   \<and> take (length (checkpoint_prefix demo_saved) + 17) (save_checkpoint demo_saved)
       = checkpoint_prefix demo_saved @ [0, 0, 0, 0, 0, 0, 0, 0, 3, 0, 0, 0, 0, 0, 0, 0, 1]
   \<and> (\<exists>M'. load_checkpoint demo_target (2 ^ 63)
               (take (length (checkpoint_prefix demo_saved) + 17) (save_checkpoint demo_saved))
             = Inl (UnexpectedEOF, M')
           \<and> arena M' = [0, 0, 0])
   \<and> (\<exists>M'. load_checkpoint demo_target (2 ^ 63)
               (checkpoint_prefix demo_saved
                  @ [1, 0, 0, 0, 0, 0, 0, 0, 1, 0, 0, 0, 0, 0, 0, 0, 7] @ [0xAA]) = Inr M'
           \<and> arena M' = [0, 7, 0])
   \<and> (\<exists>M'. load_checkpoint demo_target (2 ^ 63)
               (checkpoint_prefix demo_saved @ save_chunks (arena demo_saved) 0
                  @ save_tail (arena demo_saved) @ [0xAA]) = Inr M'
           \<and> arena M' = [1, 2, 3])"
proof -
  let ?cut = "take 660 (save_checkpoint demo_saved)"
  note t = truncation_behaviour [where M = demo_target and h = "2 ^ 63" and S = demo_saved
      and k = 660 and recs = "[(1, [7])]" and off = 0 and pl = "[4, 5]" and j = 1 and junk = "[0xAA]"]
  have wf: "well_formed demo_saved" by (rule well_formed_demo_saved)
  have sc: "length (g_sched demo_target) = length (g_sched demo_saved)"
    and ar: "length (arena demo_target) = length (arena demo_saved)"
    and al: "length (arena demo_target) = 3" "arena demo_target = [0xFF, 0xFF, 0xFF]"
      "arena demo_saved = [1, 2, 3]"
    and sl: "length (g_sched demo_target) < 2 ^ 63"
    by (simp_all add: demo_saved_def demo_target_def)
  have k: "660 < length (checkpoint_prefix demo_saved)"
    unfolding length_checkpoint_prefix by (simp add: demo_saved_def)
  have ac: "accepted_chunks (length (arena demo_target)) [(1, [7])]"
    unfolding al by (simp add: accepted_chunks_def)
  have cs: "chunk_stream [(1, [7 :: byte])] = [1, 0, 0, 0, 0, 0, 0, 0, 1, 0, 0, 0, 0, 0, 0, 0, 7]"
    by (simp add: chunk_stream_def le_bytes_8_values)
  have l2: "length [4, 5 :: byte] = 2" by simp
  have hd: "le_bytes 8 0 @ le_bytes 8 (length [4, 5 :: byte]) @ take 1 [4, 5 :: byte]
            = [0, 0, 0, 0, 0, 0, 0, 0, 2, 0, 0, 0, 0, 0, 0, 0, 4]"
    unfolding l2 by (simp add: le_bytes_8_values)
  have ap: "apply_chunks (replicate (length (arena demo_target)) 0) [(1, [7 :: byte])] = [0, 7, 0]"
    unfolding al by (simp add: apply_chunks_def numeral_eq_Suc)
  have a: "\<exists>e. load_checkpoint demo_target (2 ^ 63) [] = Inl (e, demo_target)"
    using t [where data = "[]"] by simp
  have b: "\<exists>M'. load_checkpoint demo_target (2 ^ 63) ?cut = Inl (UnexpectedEOF, M')
           \<and> arena M' = [0xFF, 0xFF, 0xFF]
           \<and> cpu M' = cpu demo_target \<and> pages M' = pages demo_target
           \<and> mmap_address M' = mmap_address demo_target \<and> g_exec_ctx M' = g_exec_ctx demo_target"
    using t [where data = ?cut] wf sc sl k unfolding al(2) [symmetric] by auto
  have c: "\<exists>M'. load_checkpoint demo_target (2 ^ 63)
               (checkpoint_prefix demo_saved
                  @ [1, 0, 0, 0, 0, 0, 0, 0, 1, 0, 0, 0, 0, 0, 0, 0, 7]
                  @ [0, 0, 0, 0, 0, 0, 0, 0, 2, 0, 0, 0, 0, 0, 0, 0, 4])
             = Inl (UnexpectedEOF, M')
           \<and> arena M' = [0, 7, 0]"
    using t [where data = "[]"] wf sc ac unfolding cs hd ap by (simp add: al(1))
  note u = truncation_behaviour [where M = demo_target and h = "2 ^ 63" and S = demo_saved
      and k = 660 and recs = "[]" and off = 0 and pl = "[1, 2, 3]" and j = 1 and junk = "[0xAA]"
      and data = "[]"]
  have l3: "length [1, 2, 3 :: byte] = 3" by simp
  have tk: "take (length (checkpoint_prefix demo_saved) + 17) (save_checkpoint demo_saved)
       = checkpoint_prefix demo_saved @ [0, 0, 0, 0, 0, 0, 0, 0, 3, 0, 0, 0, 0, 0, 0, 0, 1]"
    unfolding save_checkpoint_def save_arena_demo_saved emit_chunk_def emit_u64_le_bytes
    by (simp add: le_bytes_8_values)
  have hd3: "le_bytes 8 0 @ le_bytes 8 (length [1, 2, 3 :: byte]) @ take 1 [1, 2, 3 :: byte]
            = [0, 0, 0, 0, 0, 0, 0, 0, 3, 0, 0, 0, 0, 0, 0, 0, 1]"
    unfolding l3 by (simp add: le_bytes_8_values)
  have ap0: "apply_chunks (replicate (length (arena demo_target)) 0) [] = [0, 0, 0 :: byte]"
    unfolding al by (simp add: apply_chunks_def numeral_eq_Suc)
  have ac0: "accepted_chunks (length (arena demo_target)) []"
    by (simp add: accepted_chunks_def)
  have cs0: "chunk_stream [] = []" by (simp add: chunk_stream_def)
  have c': "\<exists>M'. load_checkpoint demo_target (2 ^ 63)
               (take (length (checkpoint_prefix demo_saved) + 17) (save_checkpoint demo_saved))
             = Inl (UnexpectedEOF, M')
           \<and> arena M' = [0, 0, 0]"
    using u wf sc ac0 unfolding tk cs0 hd3 ap0 by (simp add: al(1))
  have d: "\<exists>M'. load_checkpoint demo_target (2 ^ 63)
               (checkpoint_prefix demo_saved
                  @ [1, 0, 0, 0, 0, 0, 0, 0, 1, 0, 0, 0, 0, 0, 0, 0, 7] @ [0xAA]) = Inr M'
           \<and> arena M' = [0, 7, 0]"
    using t [where data = "[]"] wf sc ac unfolding cs ap by (simp add: al(1))
  have e: "\<exists>M'. load_checkpoint demo_target (2 ^ 63)
               (checkpoint_prefix demo_saved @ save_chunks (arena demo_saved) 0
                  @ save_tail (arena demo_saved) @ [0xAA]) = Inr M'
           \<and> arena M' = [1, 2, 3]"
    using t [where data = "[]"] wf sc ar unfolding al(3) [symmetric] by simp
  from a b c tk c' d e show ?thesis by blast
qed

text \<open>
  Claim C2 as stated fails. The checkpoint of \<open>demo_saved\<close> without its final 16 bytes (the
  sentinel record) ends before the sentinel, and \<open>load_checkpoint\<close> returns normally,
  wherever the blob lies. The same checkpoint cut right after the scheduler block makes
  \<open>load_checkpoint\<close> throw, and the live scheduler block has already been overwritten.
\<close>

theorem load_without_sentinel_succeeds:
  "save_checkpoint demo_saved = checkpoint_prefix demo_saved @ emit_chunk 0 3 [1, 2, 3] @ sentinel_record
   \<and> (\<forall>h. \<exists>M'. load_checkpoint demo_target h (checkpoint_prefix demo_saved @ emit_chunk 0 3 [1, 2, 3])
                  = Inr M'
               \<and> arena M' = [1, 2, 3])
   \<and> (\<exists>M'. load_checkpoint demo_target (2 ^ 63)
               (save_header @ save_cpu (cpu demo_saved) @ save_memory_management demo_saved
                  @ save_exec_ctx (g_exec_ctx demo_saved) @ g_sched demo_saved)
             = Inl (UnexpectedEOF, M')
           \<and> g_sched demo_target = [0, 0, 0, 0] \<and> g_sched M' = [9, 8, 7, 6])"
proof -
  have sc: "length (g_sched demo_target) = length (g_sched demo_saved)"
    by (simp add: demo_saved_def demo_target_def)
  have a: "save_checkpoint demo_saved
           = checkpoint_prefix demo_saved @ emit_chunk 0 3 [1, 2, 3] @ sentinel_record"
    by (simp add: save_checkpoint_def save_arena_demo_saved)
  have s: "save_chunks (arena demo_saved) 0 @ save_tail (arena demo_saved) @ [] = emit_chunk 0 3 [1, 2, 3]"
    using save_arena_demo_saved by (simp add: save_arena_def)
  have "load_arena h (arena demo_target) (save_chunks (arena demo_saved) 0 @ save_tail (arena demo_saved) @ [])
        = Inr (arena demo_saved, [], [])" for h
    by (rule load_arena_no_sentinel) (simp_all add: demo_saved_def demo_target_def)
  then have la: "load_arena h (arena demo_target) (emit_chunk 0 3 [1, 2, 3]) = Inr ([1, 2, 3], [], [])" for h
    unfolding s by (simp add: demo_saved_def)
  have b: "\<exists>M'. load_checkpoint demo_target h (checkpoint_prefix demo_saved @ emit_chunk 0 3 [1, 2, 3]) = Inr M'
           \<and> arena M' = [1, 2, 3]" for h
    unfolding load_checkpoint_prefix [OF well_formed_demo_saved sc] la by simp
  have "load_checkpoint demo_target (2 ^ 63)
               (save_header @ save_cpu (cpu demo_saved) @ save_memory_management demo_saved
                  @ save_exec_ctx (g_exec_ctx demo_saved) @ g_sched demo_saved)
        = Inl (UnexpectedEOF, demo_target\<lparr>g_sched := g_sched demo_saved\<rparr>)"
    by (rule load_truncated_after_sched) (simp_all add: demo_saved_def demo_target_def)
  moreover have "g_sched demo_target = [0, 0, 0, 0]" "g_sched demo_saved = [9, 8, 7, 6]"
    by (simp_all add: demo_saved_def demo_target_def)
  ultimately have c: "\<exists>M'. load_checkpoint demo_target (2 ^ 63)
               (save_header @ save_cpu (cpu demo_saved) @ save_memory_management demo_saved
                  @ save_exec_ctx (g_exec_ctx demo_saved) @ g_sched demo_saved)
             = Inl (UnexpectedEOF, M')
           \<and> g_sched demo_target = [0, 0, 0, 0] \<and> g_sched M' = [9, 8, 7, 6]"
    by simp
  from a b c show ?thesis by blast
qed

section \<open>C3: host failures stay inside the handler\<close>

text \<open>
  Claim C3, as amended. Let every host primitive fail with the negative code \<open>r\<close>. For each
  installed handler other than 703 (memmove) and 704 (gettimeofday), a handler that
  returns has written one negative value to the result register a0 and no other register
  (the code of the primitive; \<open>-38\<close> from the native stubs; \<open>-14\<close> from handler 800 when the
  socket address translates to null). Handler 704 writes 0 and handler 703 writes the
  destination address, whatever the primitives return. A handler is left by an exception
  only when one of libriscv's guest-memory operations throws: a failing primitive never
  unwinds through it.
\<close>

theorem host_failure_contained:
  assumes "setup_vh_harness emscripten env nr = Some h"
    and "primitives_return env r" and "sint r < 0"
  shows "case h m of
           Inl e \<Rightarrow> thrown_by_libriscv env e
         | Inr m' \<Rightarrow>
             only_result_written m m'
             \<and> (nr = 703 \<longrightarrow> regs m' 10 = sysarg m 0)
             \<and> (nr = 704 \<longrightarrow> regs m' 10 = 0)
             \<and> (nr \<noteq> 703 \<and> nr \<noteq> 704 \<longrightarrow> sint (regs m' 10) < 0)"
proof -
  consider
      (storage) "nr \<noteq> 703" "nr \<noteq> 704"
        "h = handler_600 emscripten env \<or> h = handler_601 emscripten env \<or> h = handler_602 emscripten env
         \<or> h = handler_603 emscripten env \<or> h = handler_604 emscripten env"
    | (compute) "nr \<noteq> 703" "nr \<noteq> 704"
        "h = handler_700 emscripten env \<or> h = handler_705 emscripten env \<or> h = handler_706 emscripten env
         \<or> h = handler_708 emscripten env"
    | (memmove) "nr = 703" "h = handler_703 emscripten env"
    | (gettimeofday) "nr = 704" "h = handler_704 emscripten env"
    | (connect) "nr \<noteq> 703" "nr \<noteq> 704" "h = handler_800 emscripten env"
    | (getaddrinfo) "nr \<noteq> 703" "nr \<noteq> 704" "h = handler_801 emscripten env"
    | (netrw) "nr \<noteq> 703" "nr \<noteq> 704"
        "h = handler_802 emscripten env \<or> h = handler_803 emscripten env"
    using assms(1) unfolding setup_vh_harness_def by (auto split: if_splits)
  then show ?thesis
  proof cases
    case storage
    from storage_band_outcome [OF assms(2,3) storage(3), where m = m] storage(1,2)
    show ?thesis by (auto split: sum.splits)
  next
    case compute
    from compute_band_outcome [OF assms(2,3) compute(3), where m = m] compute(1,2)
    show ?thesis by (auto split: sum.splits)
  next
    case memmove
    from memmove_outcome [where em = emscripten and env = env and m = m] memmove
    show ?thesis by (auto split: sum.splits)
  next
    case gettimeofday
    from gettimeofday_outcome [where em = emscripten and env = env and m = m] gettimeofday
    show ?thesis by (auto split: sum.splits)
  next
    case connect
    from connect_outcome [OF assms(2,3), where em = emscripten and m = m] connect
    show ?thesis by (auto split: sum.splits)
  next
    case getaddrinfo
    from getaddrinfo_outcome [OF assms(2,3), where em = emscripten and m = m] getaddrinfo
    show ?thesis by (auto split: sum.splits)
  next
    case netrw
    from network_rw_outcome [OF assms(2,3) netrw(3), where m = m] netrw(1,2)
    show ?thesis by (auto split: sum.splits)
  qed
qed

theorem host_failure_contained_witness:
  "setup_vh_harness True failing_env 601 = Some (handler_601 True failing_env)
   \<and> primitives_return failing_env (- 1) \<and> sint (- 1 :: long) < 0
   \<and> (\<exists>m'. handler_601 True failing_env demo_guest = Inr m'
          \<and> only_result_written demo_guest m' \<and> sint (regs m' 10) < 0 \<and> regs m' 10 = - 1)"
proof -
  have t: "setup_vh_harness True failing_env 601 = Some (handler_601 True failing_env)"
    by (simp add: setup_vh_harness_def)
  have n: "sint (- 1 :: long) < 0" by simp
  obtain m' where m': "handler_601 True failing_env demo_guest = Inr m'" and v: "regs m' 10 = - 1"
    by (simp add: handler_601_def Let_def bind_exn_def returns_def set_result_def opfs_io_def
          failing_env_def)
  from host_failure_contained [OF t primitives_return_failing_env n, where m = demo_guest] m'
  have "only_result_written demo_guest m' \<and> sint (regs m' 10) < 0" by simp
  with t n m' v primitives_return_failing_env show ?thesis by blast
qed

text \<open>
  Claim C3 as stated fails for handler 704: its primitive \<open>js_gettime_ms\<close> fails with \<open>-1\<close>,
  and the handler writes 0, not a negative value, to the result register.
\<close>

theorem gettimeofday_returns_zero_on_failure:
  "setup_vh_harness True failing_env 704 = Some (handler_704 True failing_env)
   \<and> primitives_return failing_env (- 1)
   \<and> sint (js_gettime_ms failing_env) < 0
   \<and> (\<exists>m'. handler_704 True failing_env demo_guest = Inr m' \<and> regs m' 10 = 0)"
proof -
  have t: "setup_vh_harness True failing_env 704 = Some (handler_704 True failing_env)"
    by (simp add: setup_vh_harness_def)
  have g: "sint (js_gettime_ms failing_env) < 0" by (simp add: failing_env_def)
  have a: "sysarg demo_guest 0 \<noteq> 0" by (simp add: sysarg_def demo_guest_def)
  have "\<exists>m'. handler_704 True failing_env demo_guest = Inr m' \<and> regs m' 10 = 0"
    using a
    by (simp add: handler_704_def Let_def bind_exn_def returns_def set_result_def failing_env_def)
  with t g primitives_return_failing_env show ?thesis by blast
qed

section \<open>C4: descriptor routing in the guest shim\<close>

text \<open>
  Claim C4, as amended. For \<open>write\<close>, \<open>read\<close>, \<open>pread\<close> and \<open>close\<close>, a descriptor 0, 1 or 2
  passes through to the raw Linux system call with the arguments unchanged. For \<open>write\<close>
  and \<open>read\<close>, a descriptor in 500-599 goes to the network band (ecalls 802 and 803). For
  \<open>write\<close>, descriptor 99 goes to ecall 708. \<open>write\<close> with any other descriptor from 3 up
  goes to ecall 601, and \<open>read\<close> with any descriptor from 3 up outside 500-599 goes to
  ecall 602. \<open>pread\<close> and \<open>close\<close> send every descriptor from 3 up, 99 and 500-599 included,
  to the storage band (ecalls 604 and 603).
\<close>

theorem fd_routing:
  "(0 \<le> sint fd \<and> sint fd \<le> 2 \<longrightarrow>
       write_shim fd buf count = Raw_syscall3 SYS_write (scast fd) buf count
     \<and> read_shim fd buf count = Raw_syscall3 SYS_read (scast fd) buf count
     \<and> pread_shim fd buf count off = Raw_syscall4 SYS_pread64 (scast fd) buf count off
     \<and> close_shim fd = Raw_syscall3 SYS_close (scast fd) 0 0)
   \<and> (500 \<le> sint fd \<and> sint fd < 600 \<longrightarrow>
       write_shim fd buf count = Vh_ecall 802 (scast fd) buf count 0 0
     \<and> read_shim fd buf count = Vh_ecall 803 (scast fd) buf count 0 0)
   \<and> (fd = 99 \<longrightarrow> write_shim fd buf count = Vh_ecall 708 buf count 0 0 0)
   \<and> (3 \<le> sint fd \<and> fd \<noteq> 99 \<and> \<not> (500 \<le> sint fd \<and> sint fd < 600) \<longrightarrow>
       write_shim fd buf count = Vh_ecall 601 (scast fd) buf count 0 0)
   \<and> (3 \<le> sint fd \<and> \<not> (500 \<le> sint fd \<and> sint fd < 600) \<longrightarrow>
       read_shim fd buf count = Vh_ecall 602 (scast fd) buf count 0 0)
   \<and> (3 \<le> sint fd \<longrightarrow>
       pread_shim fd buf count off = Vh_ecall 604 (scast fd) buf count off 0
     \<and> close_shim fd = Vh_ecall 603 (scast fd) 0 0 0 0)"
proof -
  have n: "sint (99 :: i32) = 99" by simp
  show ?thesis
    by (auto simp: write_shim_def read_shim_def pread_shim_def close_shim_def n)
qed

theorem fd_routing_witness:
  "write_shim 1 10 20 = Raw_syscall3 64 1 10 20
   \<and> close_shim 2 = Raw_syscall3 57 2 0 0
   \<and> write_shim 550 10 20 = Vh_ecall 802 550 10 20 0 0
   \<and> read_shim 550 10 20 = Vh_ecall 803 550 10 20 0 0
   \<and> write_shim 99 10 20 = Vh_ecall 708 10 20 0 0 0
   \<and> write_shim 7 10 20 = Vh_ecall 601 7 10 20 0 0
   \<and> read_shim 99 10 20 = Vh_ecall 602 99 10 20 0 0
   \<and> pread_shim 7 10 20 30 = Vh_ecall 604 7 10 20 30 0
   \<and> close_shim 550 = Vh_ecall 603 550 0 0 0 0"
proof -
  have s: "sint (1 :: i32) = 1" "sint (2 :: i32) = 2" "sint (550 :: i32) = 550" "sint (7 :: i32) = 7"
    "sint (99 :: i32) = 99" by simp_all
  have c: "scast (1 :: i32) = (1 :: long)" "scast (2 :: i32) = (2 :: long)"
    "scast (550 :: i32) = (550 :: long)" "scast (7 :: i32) = (7 :: long)" "scast (99 :: i32) = (99 :: long)"
    by simp_all
  show ?thesis
    using fd_routing [of 1 10 20 0] fd_routing [of 2 10 20 0] fd_routing [of 550 10 20 0]
      fd_routing [of 99 10 20 0] fd_routing [of 7 10 20 30]
    by (simp add: s c SYS_write_def SYS_close_def)
qed

text \<open>
  Claim C4 as stated fails for \<open>close\<close> and \<open>pread\<close>: with a descriptor of the window
  500-599 they issue the storage hypercalls 603 and 604, not a network-band hypercall.
\<close>

theorem close_of_socket_fd_goes_to_storage:
  "close_shim 500 = Vh_ecall 603 500 0 0 0 0
   \<and> pread_shim 550 0 16 0 = Vh_ecall 604 550 0 16 0 0
   \<and> sint (500 :: i32) = 500 \<and> sint (550 :: i32) = 550"
  by (simp add: close_shim_def pread_shim_def)

section \<open>C5: a rejected header\<close>

text \<open>
  Claim C5. A blob whose first eight bytes are not the magic tag makes \<open>load_checkpoint\<close>
  throw \<open>bad magic\<close>; a blob with the right tag whose four version bytes are not \<open>VERSION\<close>
  makes it throw \<open>unsupported version\<close>. In both cases the machine that the exception
  leaves behind is the machine as it was: no register, arena byte, exec-context field,
  kernel-state field or page attribute has been written.
\<close>

theorem bad_header_rejected:
  "(8 \<le> length data \<and> take 8 data \<noteq> MAGIC \<longrightarrow> load_checkpoint M h data = Inl (BadMagic, M))
   \<and> (12 \<le> length data \<and> take 8 data = MAGIC
        \<and> (of_nat (le_val (take 4 (drop 8 data))) :: u32) \<noteq> VERSION
      \<longrightarrow> load_checkpoint M h data
            = Inl (UnsupportedVersion (of_nat (le_val (take 4 (drop 8 data)))), M))"
proof (intro conjI impI)
  assume "8 \<le> length data \<and> take 8 data \<noteq> MAGIC"
  then show "load_checkpoint M h data = Inl (BadMagic, M)"
    by (simp add: load_checkpoint_def read_header_def read_into_def bounds_check_def remaining_def)
next
  assume a: "12 \<le> length data \<and> take 8 data = MAGIC
        \<and> (of_nat (le_val (take 4 (drop 8 data))) :: u32) \<noteq> VERSION"
  then have "\<not> length data < 8" "\<not> length data - 8 < 4" by arith+
  with a show "load_checkpoint M h data
            = Inl (UnsupportedVersion (of_nat (le_val (take 4 (drop 8 data)))), M)"
    by (simp add: load_checkpoint_def read_header_def read_into_def read_u32_def bounds_check_def remaining_def)
qed

theorem bad_header_rejected_witness:
  "load_checkpoint demo_target (2 ^ 63) [0, 0, 0, 0, 0, 0, 0, 0] = Inl (BadMagic, demo_target)
   \<and> load_checkpoint demo_target (2 ^ 63) (MAGIC @ [3, 0, 0, 0]) = Inl (UnsupportedVersion 3, demo_target)"
proof -
  have a: "8 \<le> length [0, 0, 0, 0, 0, 0, 0, 0 :: byte] \<and> take 8 [0, 0, 0, 0, 0, 0, 0, 0 :: byte] \<noteq> MAGIC"
    by (simp add: MAGIC_def)
  have b: "12 \<le> length (MAGIC @ [3, 0, 0, 0]) \<and> take 8 (MAGIC @ [3, 0, 0, 0]) = MAGIC
        \<and> (of_nat (le_val (take 4 (drop 8 (MAGIC @ [3, 0, 0, 0])))) :: u32) \<noteq> VERSION"
    by (simp add: MAGIC_def VERSION_def)
  have v: "(of_nat (le_val (take 4 (drop 8 (MAGIC @ [3, 0, 0, 0])))) :: u32) = 3"
    by (simp add: MAGIC_def)
  show ?thesis
    using bad_header_rejected [where data = "[0, 0, 0, 0, 0, 0, 0, 0]" and M = demo_target and h = "2 ^ 63"] a
      bad_header_rejected [where data = "MAGIC @ [3, 0, 0, 0]" and M = demo_target and h = "2 ^ 63"] b
    unfolding v by blast
qed

section \<open>C6: chunk records beyond the arena\<close>

text \<open>
  Claim C6 says that every chunk record whose offset plus length exceeds the arena size is
  skipped, without a byte written and without aborting the load. The test of line 357 adds
  two 64-bit values, and the sum wraps. For a 3-byte arena, the record with offset
  \<open>0xFFFFFFFFFFFFFFFE\<close> and length 4 has offset plus length far beyond the arena, yet the
  wrapped sum is 2, the record passes the test, and \<open>read_into\<close> copies its four payload
  bytes to \<open>arena + 0xFFFFFFFFFFFFFFFE\<close>, outside the arena. (A record whose sum does not
  wrap and whose payload is present is skipped as the claim says: \<open>oversize_chunk_skipped\<close>.)
\<close>

theorem wrapped_chunk_not_rejected:
  "(\<forall>h. load_arena h [0, 0, 0]
           (emit_u64 0xFFFFFFFFFFFFFFFE @ emit_u64 4 @ [1, 1, 1, 1] @ sentinel_record)
         = Inl (ArenaOverrun, [0, 0, 0]))
   \<and> unat (0xFFFFFFFFFFFFFFFE :: u64) + unat (4 :: u64) > length [0, 0, 0 :: byte]
   \<and> (\<forall>h. \<exists>M'. load_checkpoint demo_target h
               (checkpoint_prefix demo_saved
                  @ emit_u64 0xFFFFFFFFFFFFFFFE @ emit_u64 4 @ [1, 1, 1, 1] @ sentinel_record)
            = Inl (ArenaOverrun, M'))"
proof -
  have a: "load_chunks h [0, 0, 0] [] (emit_u64 0xFFFFFFFFFFFFFFFE @ emit_u64 4 @ [1, 1, 1, 1] @ sentinel_record)
           = Inl (ArenaOverrun, [0, 0, 0])" for h
    by (subst load_chunks.simps)
       (simp add: remaining_def read_u64_emit read_into_def bounds_check_def SENTINEL_ADDR_def
          sentinel_record_bytes)
  have r: "replicate (length [0, 0, 0 :: byte]) (0 :: byte) = [0, 0, 0]"
    "replicate (length (arena demo_target)) (0 :: byte) = [0, 0, 0]"
    by (simp_all add: numeral_eq_Suc demo_target_def)
  have b: "load_arena h (arena demo_target)
             (emit_u64 0xFFFFFFFFFFFFFFFE @ emit_u64 4 @ [1, 1, 1, 1] @ sentinel_record)
           = Inl (ArenaOverrun, [0, 0, 0])" for h
    unfolding load_arena_def r by (rule a)
  have s: "length (g_sched demo_target) = length (g_sched demo_saved)"
    by (simp add: demo_saved_def demo_target_def)
  have c: "\<exists>M'. load_checkpoint demo_target h
               (checkpoint_prefix demo_saved
                  @ emit_u64 0xFFFFFFFFFFFFFFFE @ emit_u64 4 @ [1, 1, 1, 1] @ sentinel_record)
            = Inl (ArenaOverrun, M')" for h
    unfolding load_checkpoint_prefix [OF well_formed_demo_saved s] b by simp
  have d: "load_arena h [0, 0, 0] (emit_u64 0xFFFFFFFFFFFFFFFE @ emit_u64 4 @ [1, 1, 1, 1] @ sentinel_record)
     = Inl (ArenaOverrun, [0, 0, 0])" for h
    unfolding load_arena_def r by (rule a)
  have "unat (0xFFFFFFFFFFFFFFFE :: u64) + unat (4 :: u64) > length [0, 0, 0 :: byte]"
    by simp
  with c d show ?thesis by blast
qed

section \<open>C7: executable pages after a restore\<close>

text \<open>
  Claim C7. Take the checkpoint of a well-formed machine \<open>S\<close>, with any arena chunk stream
  after the executable-page list, and load it into a machine \<open>M\<close> of the same build. When
  \<open>load_checkpoint\<close> returns normally, every page number of the saved executable-page list
  has read and execute permission and no write permission, whatever its attributes were in
  \<open>S\<close> or in \<open>M\<close>, and the arena is the decoded one. The permissions are set after the
  arena has been rewritten: when decoding the arena throws, the page attributes are still
  those of \<open>M\<close>.
\<close>

theorem exec_pages_reapplied:
  assumes "well_formed S" "length (g_sched M) = length (g_sched S)"
  shows "case load_checkpoint M h (checkpoint_prefix S @ stream) of
           Inr M' \<Rightarrow>
             (\<forall>pn\<in>set (exec_page_list (pages S)).
                 map_of (pages M') pn = Some \<lparr>attr_read = True, attr_write = False, attr_exec = True\<rparr>)
             \<and> (\<exists>warned r. load_arena h (arena M) stream = Inr (arena M', warned, r))
         | Inl (e, M') \<Rightarrow>
             pages M' = pages M \<and> load_arena h (arena M) stream = Inl (e, arena M')"
  unfolding load_checkpoint_prefix [OF assms]
  by (auto split: sum.split simp: map_of_restore exec_attr_def)

theorem exec_pages_reapplied_witness:
  "well_formed demo_saved \<and> length (g_sched demo_target) = length (g_sched demo_saved)
   \<and> (\<exists>M'. load_checkpoint demo_target (2 ^ 63) (save_checkpoint demo_saved) = Inr M'
          \<and> exec_page_list (pages demo_saved) = [5]
          \<and> map_of (pages demo_saved) 5 = Some \<lparr>attr_read = True, attr_write = True, attr_exec = True\<rparr>
          \<and> map_of (pages demo_target) 5 = Some \<lparr>attr_read = True, attr_write = True, attr_exec = False\<rparr>
          \<and> map_of (pages M') 5 = Some \<lparr>attr_read = True, attr_write = False, attr_exec = True\<rparr>
          \<and> arena M' = [1, 2, 3])"
proof -
  have h1: "well_formed demo_saved" by (rule well_formed_demo_saved)
  have h2: "length (g_sched demo_target) = length (g_sched demo_saved)"
    by (simp add: demo_saved_def demo_target_def)
  have len: "length (arena demo_saved) < 2 ^ 64" "length (arena demo_target) = length (arena demo_saved)"
    by (simp_all add: demo_saved_def demo_target_def)
  have ar: "load_arena (2 ^ 63) (arena demo_target) (save_arena (arena demo_saved)) = Inr (arena demo_saved, [], [])"
    using load_arena_save_arena [OF len, where rest = "[]" and h = "2 ^ 63"] by simp
  have l: "exec_page_list (pages demo_saved) = [5]"
    by (simp add: demo_saved_def exec_page_list_def)
  note t = exec_pages_reapplied [OF h1 h2, where stream = "save_arena (arena demo_saved)" and h = "2 ^ 63"]
  obtain M' where M': "load_checkpoint demo_target (2 ^ 63) (save_checkpoint demo_saved) = Inr M'"
    unfolding save_checkpoint_def load_checkpoint_prefix [OF h1 h2] ar by simp
  from t M' have p: "map_of (pages M') 5 = Some \<lparr>attr_read = True, attr_write = False, attr_exec = True\<rparr>"
    and a: "\<exists>warned r. load_arena (2 ^ 63) (arena demo_target) (save_arena (arena demo_saved)) = Inr (arena M', warned, r)"
    unfolding save_checkpoint_def [symmetric] l by simp_all
  from a ar have "arena M' = [1, 2, 3]" by (simp add: demo_saved_def)
  moreover have "map_of (pages demo_saved) 5 = Some \<lparr>attr_read = True, attr_write = True, attr_exec = True\<rparr>"
    "map_of (pages demo_target) 5 = Some \<lparr>attr_read = True, attr_write = True, attr_exec = False\<rparr>"
    by (simp_all add: demo_saved_def demo_target_def)
  ultimately show ?thesis using h1 h2 M' l p by blast
qed

section \<open>C8: an all-zero arena\<close>

text \<open>
  Claim C8. Encoding an arena whose bytes are all zero yields a chunk stream that is the
  sentinel record alone (offset \<open>0xFFFFFFFFFFFFFFFF\<close>, length 0): no full window and no tail
  passes the zero test. Decoding that stream into any destination arena, whatever its
  bytes, leaves the destination all zero, because the arena is zeroed before the records
  are applied; no record is skipped and no byte of the stream is left over. (That a full
  window is emitted exactly when one of its 64-bit words is non-zero is
  \<open>save_chunks_records\<close>; the zeroing is the first step of \<open>load_arena\<close>.)
\<close>

theorem all_zero_arena_only_sentinel:
  assumes "\<forall>b\<in>set ar. b = 0"
  shows "save_arena ar = [0xFF, 0xFF, 0xFF, 0xFF, 0xFF, 0xFF, 0xFF, 0xFF, 0, 0, 0, 0, 0, 0, 0, 0]
         \<and> save_arena ar = emit_u64 SENTINEL_ADDR @ emit_u64 0
         \<and> load_arena h dest (save_arena ar) = Inr (replicate (length dest) 0, [], [])"
proof -
  have s: "save_arena ar = sentinel_record"
    using assms by (simp add: save_arena_def save_chunks_all_zero save_tail_all_zero)
  have "load_arena h dest (sentinel_record @ []) = Inr (replicate (length dest) 0, [], [])"
    unfolding load_arena_def by (rule load_chunks_sentinel)
  then show ?thesis
    using s sentinel_record_bytes by (simp add: sentinel_record_def)
qed

theorem all_zero_arena_only_sentinel_witness:
  "list_all (\<lambda>b. b = 0) [0, 0, 0 :: byte]
   \<and> save_arena [0, 0, 0] = [0xFF, 0xFF, 0xFF, 0xFF, 0xFF, 0xFF, 0xFF, 0xFF, 0, 0, 0, 0, 0, 0, 0, 0]
   \<and> load_arena (2 ^ 63) [1, 2, 3, 4] (save_arena [0, 0, 0]) = Inr ([0, 0, 0, 0], [], [])"
proof -
  have h: "\<forall>b\<in>set [0, 0, 0 :: byte]. b = 0" by simp
  have r: "replicate (length [1, 2, 3, 4 :: byte]) (0 :: byte) = [0, 0, 0, 0]" by (simp add: numeral_eq_Suc)
  have l: "list_all (\<lambda>b. b = 0) [0, 0, 0 :: byte]" by simp
  show ?thesis
    using l all_zero_arena_only_sentinel [OF h, where dest = "[1, 2, 3, 4]" and h = "2 ^ 63"] unfolding r by blast
qed

section \<open>C9: the trailing partial window\<close>

text \<open>
  Claim C9. When the arena size is not a multiple of 65536 and the trailing partial window
  holds a non-zero byte, the bytes of the arena section are, in this order: for each full
  window \<open>k < size div 65536\<close> that holds a non-zero byte, the record made of the offset
  \<open>k * 65536\<close> and the length 65536 as 8-byte little-endian values and the 65536 bytes of
  the window; then one record for the tail, made of the offset \<open>(size div 65536) * 65536\<close>,
  the length \<open>size mod 65536\<close> and the trailing bytes; then the sentinel (eight bytes
  \<open>0xFF\<close>, eight bytes 0). So the tail is written once, after every other record, right
  before the sentinel, at the last chunk-aligned offset and with the exact number of
  trailing bytes.
\<close>

theorem nonzero_tail_saved_once:
  assumes "length ar mod 65536 \<noteq> 0"
    and "\<exists>b\<in>set (drop ((length ar div 65536) * 65536) ar). b \<noteq> 0"
  shows "save_arena ar =
           concat (map (\<lambda>k. le_bytes 8 (k * 65536) @ le_bytes 8 65536 @ take 65536 (drop (k * 65536) ar))
                    (filter (\<lambda>k. \<exists>b\<in>set (take 65536 (drop (k * 65536) ar)). b \<noteq> 0)
                       [0..<length ar div 65536]))
           @ le_bytes 8 ((length ar div 65536) * 65536) @ le_bytes 8 (length ar mod 65536)
           @ drop ((length ar div 65536) * 65536) ar
           @ [0xFF, 0xFF, 0xFF, 0xFF, 0xFF, 0xFF, 0xFF, 0xFF, 0, 0, 0, 0, 0, 0, 0, 0]
         \<and> length (drop ((length ar div 65536) * 65536) ar) = length ar mod 65536"
proof -
  have t: "\<exists>b\<in>set (drop ((length ar div CHUNK_SIZE) * CHUNK_SIZE) ar). b \<noteq> 0"
    using assms(2) by (simp add: CHUNK_SIZE_def)
  have "save_chunks ar (0 * CHUNK_SIZE) =
          concat (map (\<lambda>k. emit_chunk (k * CHUNK_SIZE) CHUNK_SIZE (take CHUNK_SIZE (drop (k * CHUNK_SIZE) ar)))
                    (filter (\<lambda>k. \<not> chunk_all_zero ar (k * CHUNK_SIZE)) [0..<length ar div CHUNK_SIZE]))"
    by (rule save_chunks_records)
  then have c: "save_chunks ar 0 =
          concat (map (\<lambda>k. le_bytes 8 (k * 65536) @ le_bytes 8 65536 @ take 65536 (drop (k * 65536) ar))
                    (filter (\<lambda>k. \<exists>b\<in>set (take 65536 (drop (k * 65536) ar)). b \<noteq> 0)
                       [0..<length ar div 65536]))"
    unfolding emit_chunk_def emit_u64_le_bytes
    by (simp add: chunk_all_zero_iff CHUNK_SIZE_def)
  have "save_tail ar = emit_chunk ((length ar div CHUNK_SIZE) * CHUNK_SIZE) (length ar mod CHUNK_SIZE)
                          (drop ((length ar div CHUNK_SIZE) * CHUNK_SIZE) ar)"
    by (rule save_tail_nonzero [OF t])
  then have s: "save_tail ar = le_bytes 8 ((length ar div 65536) * 65536) @ le_bytes 8 (length ar mod 65536)
                          @ drop ((length ar div 65536) * 65536) ar"
    unfolding emit_chunk_def emit_u64_le_bytes by (simp add: CHUNK_SIZE_def)
  have l: "length ar - (length ar div 65536) * 65536 = length ar mod 65536"
    by (simp add: minus_div_mult_eq_mod)
  show ?thesis
    unfolding save_arena_def c s sentinel_record_bytes by (simp add: l)
qed

theorem nonzero_tail_saved_once_witness:
  "length [1, 2, 3 :: byte] mod 65536 \<noteq> 0
   \<and> (\<exists>b\<in>set (drop ((length [1, 2, 3 :: byte] div 65536) * 65536) [1, 2, 3 :: byte]). b \<noteq> 0)
   \<and> save_arena [1, 2, 3]
       = [0, 0, 0, 0, 0, 0, 0, 0, 3, 0, 0, 0, 0, 0, 0, 0, 1, 2, 3,
          0xFF, 0xFF, 0xFF, 0xFF, 0xFF, 0xFF, 0xFF, 0xFF, 0, 0, 0, 0, 0, 0, 0, 0]
   \<and> length ((7 # replicate 65535 0) @ [0, 9 :: byte]) mod 65536 \<noteq> 0
   \<and> (\<exists>b\<in>set (drop ((length ((7 # replicate 65535 0) @ [0, 9 :: byte]) div 65536) * 65536)
                  ((7 # replicate 65535 0) @ [0, 9 :: byte])). b \<noteq> 0)
   \<and> save_arena ((7 # replicate 65535 0) @ [0, 9])
       = [0, 0, 0, 0, 0, 0, 0, 0, 0, 0, 1, 0, 0, 0, 0, 0] @ (7 # replicate 65535 0)
         @ [0, 0, 1, 0, 0, 0, 0, 0, 2, 0, 0, 0, 0, 0, 0, 0, 0, 9,
            0xFF, 0xFF, 0xFF, 0xFF, 0xFF, 0xFF, 0xFF, 0xFF, 0, 0, 0, 0, 0, 0, 0, 0]"
proof -
  let ?ar = "(7 # replicate 65535 0) @ [0, 9 :: byte]"
  have a1: "length [1, 2, 3 :: byte] mod 65536 \<noteq> 0"
    and a2: "\<exists>b\<in>set (drop ((length [1, 2, 3 :: byte] div 65536) * 65536) [1, 2, 3 :: byte]). b \<noteq> 0"
    by simp_all
  have L: "length ?ar = 65538" by simp
  have tk: "take 65536 ?ar = 7 # replicate 65535 0"
    and dr: "drop 65536 ?ar = [0, 9]"
    by simp_all
  have b1: "length ?ar mod 65536 \<noteq> 0" unfolding L by simp
  have b2: "\<exists>b\<in>set (drop ((length ?ar div 65536) * 65536) ?ar). b \<noteq> 0"
    unfolding L by (simp add: dr)
  have f: "[0..<(1::nat)] = [0]" by simp
  have c1: "save_arena [1, 2, 3]
       = [0, 0, 0, 0, 0, 0, 0, 0, 3, 0, 0, 0, 0, 0, 0, 0, 1, 2, 3,
          0xFF, 0xFF, 0xFF, 0xFF, 0xFF, 0xFF, 0xFF, 0xFF, 0, 0, 0, 0, 0, 0, 0, 0]"
    using nonzero_tail_saved_once [OF a1 a2] by (simp add: le_bytes_8_values)
  have d: "(65538 :: nat) div 65536 = 1" "(65538 :: nat) mod 65536 = 2" by simp_all
  have c2: "save_arena ?ar
       = [0, 0, 0, 0, 0, 0, 0, 0, 0, 0, 1, 0, 0, 0, 0, 0] @ (7 # replicate 65535 0)
         @ [0, 0, 1, 0, 0, 0, 0, 0, 2, 0, 0, 0, 0, 0, 0, 0, 0, 9,
            0xFF, 0xFF, 0xFF, 0xFF, 0xFF, 0xFF, 0xFF, 0xFF, 0, 0, 0, 0, 0, 0, 0, 0]"
    using nonzero_tail_saved_once [OF b1 b2]
    unfolding L d
    by (simp only: f mult_1 mult_zero_left drop_0 tk dr) (simp add: le_bytes_8_values)
  from a1 a2 c1 b1 b2 c2 show ?thesis by blast
qed

section \<open>C10: memmove in the guest shim\<close>

text \<open>
  Claim C10. For \<open>n \<le> 1024\<close> the shim's \<open>memmove\<close> issues no hypercall: it copies locally
  (forward when \<open>dest\<close> is below \<open>src\<close>, backward otherwise) and returns \<open>dest\<close>. After the
  call the \<open>n\<close> bytes at \<open>dest\<close> are the \<open>n\<close> bytes that were at \<open>src\<close> before it, also when
  the two ranges overlap, and no byte outside the destination range has changed.
\<close>

theorem memmove_small_local:
  assumes "n \<le> 1024"
  shows "\<exists>mem'. memmove_shim mem dest src n = Inr (mem', dest)
           \<and> mem' = (if dest < src then copy_forward mem dest src 0 n
                      else copy_backward mem dest src n)
           \<and> (\<forall>i<n. mem' (dest + i) = mem (src + i))
           \<and> (\<forall>a. a < dest \<or> dest + n \<le> a \<longrightarrow> mem' a = mem a)"
proof (cases "dest < src")
  case True
  then have le: "dest \<le> src" by simp
  show ?thesis
    using assms True by (auto simp: memmove_shim_def copy_forward_result [OF le])
next
  case False
  then have le: "src \<le> dest" by simp
  show ?thesis
    using assms False by (auto simp: memmove_shim_def copy_backward_result [OF le])
qed

theorem memmove_small_local_witness:
  "(3::nat) \<le> 1024
   \<and> (\<exists>mem'. memmove_shim (\<lambda>a. of_nat a) 2 0 3 = Inr (mem', 2)
          \<and> mem' 2 = 0 \<and> mem' 3 = 1 \<and> mem' 4 = 2 \<and> mem' 1 = 1 \<and> mem' 5 = 5)"
proof -
  have h: "(3::nat) \<le> 1024" by simp
  obtain mem' where m: "memmove_shim (\<lambda>a. of_nat a) 2 0 3 = Inr (mem', 2)"
    and c: "\<forall>i<3. mem' (2 + i) = (of_nat (0 + i) :: byte)"
    and k: "\<forall>a. a < 2 \<or> 2 + 3 \<le> a \<longrightarrow> mem' a = (of_nat a :: byte)"
    using memmove_small_local [OF h, of "\<lambda>a. of_nat a" 2 0] by blast
  have "(0::nat) < 3" "(1::nat) < 3" "(2::nat) < 3" by simp_all
  then have "mem' (2 + 0) = of_nat (0 + 0)" "mem' (2 + 1) = of_nat (0 + 1)" "mem' (2 + 2) = of_nat (0 + 2)"
    using c by blast+
  then have "mem' 2 = 0" "mem' 3 = 1" "mem' 4 = 2" by simp_all
  moreover have "mem' 1 = 1" "mem' 5 = 5" using k by simp_all
  ultimately show ?thesis using h m by blast
qed

end
